theory Spec2Isabelle
  imports Main "HOL-Library.Word"
begin

section \<open>Embedded etcd test fixture (channeldb/kvdb/etcd/embed.go)\<close>

text \<open>
  The file has two functions. \<open>getFreePort\<close> advances the process-wide counter
  \<open>lastPort\<close> with \<open>atomic.AddUint32\<close> and probes the loopback interface;
  \<open>NewEmbeddedEtcdInstance\<close> allocates two ports, starts an embedded etcd server,
  waits for its readiness and returns a connection descriptor and a cleanup closure.

  Everything outside the file (the network, the etcd library, the clock, the context
  package) is an oracle of the environment \<open>env\<close>. Each call into it is appended,
  with its outcome, to the \<open>trace\<close> of the \<open>world\<close>, and every oracle sees the
  trace so far, so that the environment may answer the same question differently at
  different times.
\<close>

subsection \<open>Go values\<close>

type_synonym uint32 = "32 word"

text \<open>A Go \<open>error\<close> value, identified with its message.\<close>

datatype go_error = Error string

text \<open>A call either returns or panics with a message.\<close>

datatype 'a go_result = Panic string | Return 'a

text \<open>\<open>url.URL\<close>; a composite literal leaves the fields it does not name zero.\<close>

record url =
  Scheme :: string
  Opaque :: string
  Host :: string
  Path :: string
  RawPath :: string
  ForceQuery :: bool
  RawQuery :: string
  Fragment :: string

definition url_zero :: url where
  "url_zero = \<lparr>Scheme = [], Opaque = [], Host = [], Path = [], RawPath = [],
     ForceQuery = False, RawQuery = [], Fragment = []\<rparr>"

text \<open>
  \<open>embed.Config\<close> of the etcd library, restricted to the fields this file assigns.
  The value of \<open>embed.NewConfig()\<close> is a parameter of the environment.
\<close>

record etcd_config =
  Dir :: string
  MaxTxnOps :: nat
  MaxRequestBytes :: nat
  LCUrls :: "url list"
  LPUrls :: "url list"

text \<open>
  Modelled from the spec: the declaration of \<open>BackendConfig\<close> is not in this file.
  The spec's connection descriptor has a cancellation context, a host address, a
  credential pair and a transport-verification flag; these are the five fields the
  composite literal of \<open>NewEmbeddedEtcdInstance\<close> names. A context is identified with
  its index in the world's list of contexts.
\<close>

record BackendConfig =
  Ctx :: nat
  Host :: string
  User :: string
  Pass :: string
  InsecureSkipVerify :: bool

subsection \<open>Decimal formatting (\<open>%d\<close>)\<close>

definition digit_char :: "nat \<Rightarrow> char" where
  "digit_char d = ''0123456789'' ! d"

function fmt_nat :: "nat \<Rightarrow> string" where
  "fmt_nat n = (if n < 10 then [digit_char n] else fmt_nat (n div 10) @ [digit_char (n mod 10)])"
  by pat_completeness auto
termination
  by (relation "measure (\<lambda>n. n)") auto

declare fmt_nat.simps [simp del]

definition fmt_d :: "int \<Rightarrow> string" where
  "fmt_d i = (if i < 0 then CHR ''-'' # fmt_nat (nat (- i)) else fmt_nat (nat i))"

text \<open>\<open>fmt.Sprintf("127.0.0.1:%d", port)\<close>\<close>

definition Sprintf_addr :: "int \<Rightarrow> string" where
  "Sprintf_addr port = ''127.0.0.1:'' @ fmt_d port"

subsection \<open>The world and its environment\<close>

text \<open>
  One event per call that leaves the file: the argument and what came back.
  An etcd instance is identified with a handle chosen by the environment.
\<close>

datatype event =
    EvListen string bool
  | EvListenerClose string bool
  | EvStartEtcd etcd_config "go_error + nat"
  | EvSelect nat int bool
  | EvEtcdClose nat
  | EvWithCancel nat
  | EvCancel nat

record world =
  lastPort :: uint32
  contexts :: "bool list"
  trace :: "event list"

text \<open>
  \<open>net_Listen\<close> and \<open>Listener_Close\<close> say whether the call returned a nil error;
  \<open>embed_StartEtcd\<close> returns the error or the instance; \<open>ReadyNotify_first\<close> says
  whether the readiness channel delivered before the timer of the given duration;
  \<open>Duration_String\<close> is \<open>%v\<close> on a \<open>time.Duration\<close>.
\<close>

record env =
  net_Listen :: "event list \<Rightarrow> string \<Rightarrow> bool"
  Listener_Close :: "event list \<Rightarrow> string \<Rightarrow> bool"
  embed_NewConfig :: etcd_config
  embed_StartEtcd :: "event list \<Rightarrow> etcd_config \<Rightarrow> go_error + nat"
  ReadyNotify_first :: "event list \<Rightarrow> nat \<Rightarrow> int \<Rightarrow> bool"
  Duration_String :: "int \<Rightarrow> string"

definition log :: "event \<Rightarrow> world \<Rightarrow> world" where
  "log e w = w\<lparr>trace := trace w @ [e]\<rparr>"

subsection \<open>Constants and the port cursor\<close>

text \<open>\<open>time.Second\<close> in nanoseconds, the unit of \<open>time.Duration\<close>.\<close>

definition Second :: int where
  "Second = 1000000000"

definition readyTimeout :: int where
  "readyTimeout = 10 * Second"

definition defaultEtcdPort :: uint32 where
  "defaultEtcdPort = 2379"

text \<open>The world when the process starts: \<open>lastPort\<close> has its initialiser.\<close>

definition init_world :: world where
  "init_world = \<lparr>lastPort = defaultEtcdPort, contexts = [], trace = []\<rparr>"

text \<open>\<open>atomic.AddUint32(&lastPort, delta)\<close>: adds with wrap-around, returns the new value.\<close>

definition AddUint32_lastPort :: "uint32 \<Rightarrow> world \<Rightarrow> uint32 \<times> world" where
  "AddUint32_lastPort delta w = (let n = lastPort w + delta in (n, w\<lparr>lastPort := n\<rparr>))"

definition Listen :: "env \<Rightarrow> string \<Rightarrow> world \<Rightarrow> bool \<times> world" where
  "Listen en addr w = (let ok = net_Listen en (trace w) addr in (ok, log (EvListen addr ok) w))"

definition Close_listener :: "env \<Rightarrow> string \<Rightarrow> world \<Rightarrow> bool \<times> world" where
  "Close_listener en addr w =
     (let ok = Listener_Close en (trace w) addr in (ok, log (EvListenerClose addr ok) w))"

subsection \<open>getFreePort\<close>

text \<open>
  The loop of \<open>getFreePort\<close>, entered with the candidate \<open>port\<close>. The number of
  iterations left is bounded by the distance of the cursor from 65535.
\<close>

definition iterations_left :: "uint32 \<Rightarrow> world \<Rightarrow> nat" where
  "iterations_left port w =
     (if port < 65535 then Suc (65535 - unat (lastPort w + 1)) else 0)"

function getFreePort_loop :: "env \<Rightarrow> uint32 \<Rightarrow> world \<Rightarrow> int go_result \<times> world" where
  "getFreePort_loop en port w =
     (if port < 65535 then
        (let addr = Sprintf_addr (uint port);
             (l_ok, w1) = Listen en addr w
         in if l_ok then
              (let (c_ok, w2) = Close_listener en addr w1
               in if c_ok then (Return (uint port), w2)
                  else (let (port', w3) = AddUint32_lastPort 1 w2
                        in getFreePort_loop en port' w3))
            else (let (port', w3) = AddUint32_lastPort 1 w1
                  in getFreePort_loop en port' w3))
      else (Panic ''no ports available for listening'', w))"
  by pat_completeness auto

lemma lastPort_log [simp]: "lastPort (log e w) = lastPort w"
  by (simp add: log_def)

lemma Listen_lastPort: "Listen en a w = (ok, w1) \<Longrightarrow> lastPort w1 = lastPort w"
  by (auto simp: Listen_def Let_def)

lemma Close_listener_lastPort:
  "Close_listener en a w = (ok, w1) \<Longrightarrow> lastPort w1 = lastPort w"
  by (auto simp: Close_listener_def Let_def)

lemma unat_succ_below: "(x::uint32) < 65535 \<Longrightarrow> unat (x + 1) = Suc (unat x)"
  by (simp add: word_less_nat_alt unat_word_ariths)

lemma iterations_left_decreases:
  assumes p: "port < 65535" and l: "lastPort w' = lastPort w + 1"
  shows "iterations_left (lastPort w + 1) w' < iterations_left port w"
proof (cases "lastPort w + 1 < 65535")
  case True
  then have "unat (lastPort w + 1 + 1) = Suc (unat (lastPort w + 1))"
    by (rule unat_succ_below)
  moreover from True have "unat (lastPort w + 1) < 65535"
    by (simp add: word_less_nat_alt)
  ultimately show ?thesis using p True l
    by (simp add: iterations_left_def)
next
  case False
  then show ?thesis using p by (simp add: iterations_left_def)
qed

lemma AddUint32_decreases:
  "port < 65535 \<Longrightarrow> lastPort y = lastPort w \<Longrightarrow>
   (case AddUint32_lastPort 1 y of (p, w') \<Rightarrow> iterations_left p w') < iterations_left port w"
  using iterations_left_decreases [of port "snd (AddUint32_lastPort 1 y)" w]
  by (simp add: AddUint32_lastPort_def Let_def)

termination getFreePort_loop
proof (relation "measure (\<lambda>(en, port, w). iterations_left port w)", goal_cases)
  case 1
  show ?case by simp
next
  case (2 en port w a x1 l_ok w1 x2 c_ok w2 x3 port' w3)
  then have "lastPort w2 = lastPort w"
    by (metis Listen_lastPort Close_listener_lastPort)
  with 2 show ?case
    by (simp add: AddUint32_decreases)
next
  case (3 en port w a x1 l_ok w1 x2 port' w3)
  then have "lastPort w1 = lastPort w"
    by (metis Listen_lastPort)
  with 3 show ?case
    by (simp add: AddUint32_decreases)
qed

declare getFreePort_loop.simps [simp del]

definition getFreePort :: "env \<Rightarrow> world \<Rightarrow> int go_result \<times> world" where
  "getFreePort en w =
     (let (port, w1) = AddUint32_lastPort 1 w in getFreePort_loop en port w1)"

subsection \<open>NewEmbeddedEtcdInstance\<close>

text \<open>The calls into the etcd library, the clock and the context package.\<close>

definition StartEtcd :: "env \<Rightarrow> etcd_config \<Rightarrow> world \<Rightarrow> (go_error + nat) \<times> world" where
  "StartEtcd en cfg w =
     (let r = embed_StartEtcd en (trace w) cfg in (r, log (EvStartEtcd cfg r) w))"

text \<open>
  The \<open>select\<close> over \<open>etcd.Server.ReadyNotify()\<close> and \<open>time.After(d)\<close>:
  \<open>True\<close> when the first case is taken.
\<close>

definition select_ReadyNotify :: "env \<Rightarrow> nat \<Rightarrow> int \<Rightarrow> world \<Rightarrow> bool \<times> world" where
  "select_ReadyNotify en etcd d w =
     (let ready = ReadyNotify_first en (trace w) etcd d in (ready, log (EvSelect etcd d ready) w))"

definition Etcd_Close :: "nat \<Rightarrow> world \<Rightarrow> world" where
  "Etcd_Close etcd w = log (EvEtcdClose etcd) w"

text \<open>
  \<open>context.WithCancel(context.Background())\<close> makes a new context, not cancelled;
  \<open>cancel\<close> is the function it returns with it.
\<close>

definition WithCancel :: "world \<Rightarrow> nat \<times> world" where
  "WithCancel w =
     (let ctx = length (contexts w)
      in (ctx, log (EvWithCancel ctx) (w\<lparr>contexts := contexts w @ [False]\<rparr>)))"

definition cancel :: "nat \<Rightarrow> world \<Rightarrow> world" where
  "cancel ctx w = log (EvCancel ctx) (w\<lparr>contexts := (contexts w)[ctx := True]\<rparr>)"

text \<open>\<open>fmt.Errorf("etcd failed to start after: %v", d)\<close>\<close>

definition Errorf_timeout :: "env \<Rightarrow> int \<Rightarrow> go_error" where
  "Errorf_timeout en d = Error (''etcd failed to start after: '' @ Duration_String en d)"

text \<open>
  The three results are the descriptor, the cleanup closure and the error, each
  \<open>None\<close> for \<open>nil\<close>. The closure is a function on worlds. A panic of
  \<open>getFreePort\<close> is not recovered and ends the call.
\<close>

type_synonym instance_result = "BackendConfig option \<times> (world \<Rightarrow> world) option \<times> go_error option"

definition NewEmbeddedEtcdInstance ::
    "env \<Rightarrow> string \<Rightarrow> world \<Rightarrow> instance_result go_result \<times> world" where
  "NewEmbeddedEtcdInstance en path w =
     (let cfg = embed_NewConfig en;
          cfg = cfg\<lparr>Dir := path\<rparr>;
          cfg = cfg\<lparr>MaxTxnOps := 8192\<rparr>;
          cfg = cfg\<lparr>MaxRequestBytes := 16384 * 1024\<rparr>
      in case getFreePort en w of
           (Panic msg, w1) \<Rightarrow> (Panic msg, w1)
         | (Return port1, w1) \<Rightarrow>
             (let clientURL = Sprintf_addr port1
              in case getFreePort en w1 of
                   (Panic msg, w2) \<Rightarrow> (Panic msg, w2)
                 | (Return port2, w2) \<Rightarrow>
                     (let peerURL = Sprintf_addr port2;
                          cfg = cfg\<lparr>LCUrls := [url_zero\<lparr>url.Host := clientURL\<rparr>]\<rparr>;
                          cfg = cfg\<lparr>LPUrls := [url_zero\<lparr>url.Host := peerURL\<rparr>]\<rparr>
                      in case StartEtcd en cfg w2 of
                           (Inl err, w3) \<Rightarrow> (Return (None, None, Some err), w3)
                         | (Inr etcd, w3) \<Rightarrow>
                             (case select_ReadyNotify en etcd readyTimeout w3 of
                                (False, w4) \<Rightarrow>
                                  (let w5 = Etcd_Close etcd w4
                                   in (Return (None, None, Some (Errorf_timeout en readyTimeout)), w5))
                              | (True, w4) \<Rightarrow>
                                  (let (ctx, w5) = WithCancel w4;
                                       connConfig = \<lparr>Ctx = ctx, Host = ''http://'' @ peerURL,
                                         User = ''user'', Pass = ''pass'',
                                         InsecureSkipVerify = True\<rparr>
                                   in (Return (Some connConfig,
                                         Some (\<lambda>w. Etcd_Close etcd (cancel ctx w)), None), w5))))))"

subsection \<open>Processes\<close>

text \<open>
  A panic of \<open>getFreePort\<close> is not recovered anywhere in the file, so it ends the
  process. The worlds a process can be in, when its goroutines call one after the
  other, are the initial world and those that follow it by a call that returned:
  a call of \<open>getFreePort\<close>, of \<open>NewEmbeddedEtcdInstance\<close>, or of a cleanup closure
  that \<open>NewEmbeddedEtcdInstance\<close> returned. The environment may differ at each call.
\<close>

inductive reachable :: "world \<Rightarrow> bool" where
  at_start: "reachable init_world"
| after_port: "reachable w \<Longrightarrow> getFreePort en w = (Return p, w') \<Longrightarrow> reachable w'"
| after_instance: "reachable w \<Longrightarrow> NewEmbeddedEtcdInstance en path w = (Return res, w') \<Longrightarrow> reachable w'"
| after_cleanup: "reachable w \<Longrightarrow> NewEmbeddedEtcdInstance en path v = (Return (c, Some f, e), v') \<Longrightarrow>
     reachable (f w)"

subsection \<open>Concurrent calls of getFreePort\<close>

text \<open>
  Goroutines share \<open>lastPort\<close> and nothing else; \<open>atomic.AddUint32\<close> is the only
  access to it. A goroutine that calls \<open>getFreePort\<close> is before its first
  \<open>AddUint32\<close> (\<open>Calling\<close>), or at the loop test with its candidate (\<open>Probing\<close>), or
  has returned or panicked. One step of goroutine \<open>i\<close> runs it up to and including its
  next \<open>AddUint32\<close>, or to its end; \<open>ok\<close> is the outcome of the probe it makes on
  the way, if it makes one. A schedule is the list of the steps taken, in order.
\<close>

datatype goroutine = Calling | Probing uint32 | Returned int | Panicked string

record process =
  cursor :: uint32
  goroutines :: "goroutine list"

definition advance :: "nat \<Rightarrow> process \<Rightarrow> process" where
  "advance i s =
     (let n = cursor s + 1 in s\<lparr>cursor := n, goroutines := (goroutines s)[i := Probing n]\<rparr>)"

definition step :: "nat \<times> bool \<Rightarrow> process \<Rightarrow> process" where
  "step a s =
     (case a of (i, ok) \<Rightarrow>
        if i < length (goroutines s) then
          (case goroutines s ! i of
             Calling \<Rightarrow> advance i s
           | Probing port \<Rightarrow>
               if port < 65535 then
                 (if ok then s\<lparr>goroutines := (goroutines s)[i := Returned (uint port)]\<rparr>
                  else advance i s)
               else s\<lparr>goroutines :=
                      (goroutines s)[i := Panicked ''no ports available for listening'']\<rparr>
           | Returned p \<Rightarrow> s
           | Panicked msg \<Rightarrow> s)
        else s)"

definition run :: "(nat \<times> bool) list \<Rightarrow> process \<Rightarrow> process" where
  "run sched s = fold step sched s"

text \<open>\<open>n\<close> goroutines about to call, with the cursor at \<open>c\<close>.\<close>

definition calls :: "uint32 \<Rightarrow> nat \<Rightarrow> process" where
  "calls c n = \<lparr>cursor = c, goroutines = replicate n Calling\<rparr>"

fun returned_port :: "goroutine \<Rightarrow> int option" where
  "returned_port (Returned p) = Some p"
| "returned_port g = None"

definition returned_ports :: "process \<Rightarrow> int list" where
  "returned_ports s = List.map_filter returned_port (goroutines s)"

subsection \<open>Notions used in the statements\<close>

text \<open>
  The events a call appended to the trace, and two classes of events: the probes of
  \<open>getFreePort\<close>, and among them the one that ends a successful probe.
\<close>

definition call_events :: "world \<Rightarrow> world \<Rightarrow> event list" where
  "call_events w w' = drop (length (trace w)) (trace w')"

fun is_probe :: "event \<Rightarrow> bool" where
  "is_probe (EvListen a ok) = True"
| "is_probe (EvListenerClose a ok) = True"
| "is_probe e = False"

fun probe_succeeded :: "event \<Rightarrow> bool" where
  "probe_succeeded (EvListenerClose a ok) = ok"
| "probe_succeeded e = False"

text \<open>The candidates a call probed are counted by its \<open>net.Listen\<close> events.\<close>

fun is_listen :: "event \<Rightarrow> bool" where
  "is_listen (EvListen a ok) = True"
| "is_listen e = False"

definition probes :: "world \<Rightarrow> world \<Rightarrow> nat" where
  "probes w w' = length (filter is_listen (call_events w w'))"

text \<open>The address on which an event of a probe listened.\<close>

fun probed_addr :: "event \<Rightarrow> string option" where
  "probed_addr (EvListen a ok) = Some a"
| "probed_addr (EvListenerClose a ok) = Some a"
| "probed_addr e = None"

text \<open>The calls of \<open>embed.StartEtcd\<close> in a trace.\<close>

fun is_start :: "event \<Rightarrow> bool" where
  "is_start (EvStartEtcd cfg res) = True"
| "is_start e = False"

text \<open>
  What a run of the loop that starts at the cursor leaves behind: the trace grows by
  probes only, no context is touched, a panic follows failed probes only, and a
  returned port is the cursor's value and was probed last, with success.
\<close>

definition loop_post :: "world \<Rightarrow> int go_result \<Rightarrow> world \<Rightarrow> bool" where
  "loop_post w r w' \<longleftrightarrow>
     (\<exists>evs. trace w' = trace w @ evs \<and> contexts w' = contexts w \<and> (\<forall>e\<in>set evs. is_probe e) \<and>
        (case r of
           Panic m \<Rightarrow> m = ''no ports available for listening'' \<and> (\<forall>e\<in>set evs. \<not> probe_succeeded e)
         | Return p \<Rightarrow> p = uint (lastPort w') \<and>
             (\<exists>evs0. evs = evs0 @ [EvListen (Sprintf_addr p) True, EvListenerClose (Sprintf_addr p) True]
                \<and> (\<forall>e\<in>set evs0. \<not> probe_succeeded e))))"

text \<open>The interval in which the cursor stays while calls return.\<close>

definition cursor_in_range :: "world \<Rightarrow> bool" where
  "cursor_in_range w \<longleftrightarrow> defaultEtcdPort \<le> lastPort w \<and> lastPort w < 65535"

text \<open>The configuration that \<open>NewEmbeddedEtcdInstance\<close> has assembled when it calls
  \<open>embed.StartEtcd\<close>, as a function of the two ports.\<close>

definition startup_config :: "env \<Rightarrow> string \<Rightarrow> int \<Rightarrow> int \<Rightarrow> etcd_config" where
  "startup_config en path port1 port2 =
     (embed_NewConfig en)\<lparr>Dir := path, MaxTxnOps := 8192, MaxRequestBytes := 16384 * 1024,
        LCUrls := [url_zero\<lparr>url.Host := Sprintf_addr port1\<rparr>],
        LPUrls := [url_zero\<lparr>url.Host := Sprintf_addr port2\<rparr>]\<rparr>"

text \<open>A goroutine whose candidate has reached 65535 makes no further increment, and a
  goroutine holds the port it probes or has returned.\<close>

fun spent :: "goroutine \<Rightarrow> bool" where
  "spent (Probing port) = (\<not> port < 65535)"
| "spent (Panicked msg) = True"
| "spent g = False"

fun held_port :: "goroutine \<Rightarrow> uint32 option" where
  "held_port (Probing port) = Some port"
| "held_port (Returned p) = Some (word_of_int p)"
| "held_port g = None"

text \<open>What holds of concurrent calls that started with the cursor at \<open>c\<close>, while the
  cursor has not wrapped around: the cursor has advanced past 65534 at most once for each
  spent goroutine; every port held came from an increment, so it lies between \<open>c\<close> and
  the cursor; a returned port was a candidate below 65535; and no two goroutines hold the
  same port.\<close>

definition ports_inv :: "uint32 \<Rightarrow> process \<Rightarrow> bool" where
  "ports_inv c s \<longleftrightarrow>
     unat (cursor s) \<le> max (unat c) 65534 + length (filter spent (goroutines s)) \<and>
     c \<le> cursor s \<and>
     (\<forall>i<length (goroutines s). \<forall>port. held_port (goroutines s ! i) = Some port \<longrightarrow>
        c < port \<and> port \<le> cursor s) \<and>
     (\<forall>i<length (goroutines s). \<forall>p. goroutines s ! i = Returned p \<longrightarrow>
        (\<exists>port :: uint32. port < 65535 \<and> p = uint port)) \<and>
     (\<forall>i<length (goroutines s). \<forall>j<length (goroutines s). i \<noteq> j \<longrightarrow>
        held_port (goroutines s ! i) \<noteq> None \<longrightarrow>
        held_port (goroutines s ! i) \<noteq> held_port (goroutines s ! j))"

text \<open>The state in which a goroutine ends when its call has the given result.\<close>

fun finished :: "int go_result \<Rightarrow> goroutine" where
  "finished (Return p) = Returned p"
| "finished (Panic msg) = Panicked msg"

subsection \<open>Examples\<close>

text \<open>An environment for examples: every port is free, etcd starts and is ready at once.\<close>

definition all_free :: env where
  "all_free = \<lparr>net_Listen = (\<lambda>h a. True), Listener_Close = (\<lambda>h a. True),
     embed_NewConfig = \<lparr>Dir = ''default.etcd'', MaxTxnOps = 128, MaxRequestBytes = 1572864,
       LCUrls = [], LPUrls = []\<rparr>,
     embed_StartEtcd = (\<lambda>h cfg. Inr 0), ReadyNotify_first = (\<lambda>h etcd d. True),
     Duration_String = (\<lambda>d. ''10s'')\<rparr>"

text \<open>An environment for examples in which no port can be bound.\<close>

definition all_busy :: env where
  "all_busy = all_free\<lparr>net_Listen := (\<lambda>h a. False)\<rparr>"

text \<open>An environment for examples in which the listener on port 2380 opens but
  does not close, and every other port is free.\<close>

definition close_fails_2380 :: env where
  "close_fails_2380 = all_free\<lparr>Listener_Close := (\<lambda>h a. a \<noteq> ''127.0.0.1:2380'')\<rparr>"

text \<open>Environments for examples: etcd never becomes ready; etcd does not start.\<close>

definition never_ready :: env where
  "never_ready = all_free\<lparr>ReadyNotify_first := (\<lambda>h etcd d. False)\<rparr>"

definition launch_fails :: env where
  "launch_fails = all_free\<lparr>embed_StartEtcd := (\<lambda>h cfg. Inl (Error ''member has already been bootstrapped''))\<rparr>"

text \<open>What the first call of \<open>NewEmbeddedEtcdInstance\<close> in a process does when ports
  2380 and 2381 are free: its probes, its configuration, and the worlds it leaves.\<close>

definition example_probes :: "event list" where
  "example_probes =
     [EvListen ''127.0.0.1:2380'' True, EvListenerClose ''127.0.0.1:2380'' True,
      EvListen ''127.0.0.1:2381'' True, EvListenerClose ''127.0.0.1:2381'' True]"

definition example_config :: etcd_config where
  "example_config = \<lparr>Dir = ''/tmp/etcd'', MaxTxnOps = 8192, MaxRequestBytes = 16777216,
     LCUrls = [url_zero\<lparr>url.Host := ''127.0.0.1:2380''\<rparr>],
     LPUrls = [url_zero\<lparr>url.Host := ''127.0.0.1:2381''\<rparr>]\<rparr>"

definition world_ready :: world where
  "world_ready = \<lparr>lastPort = 2381, contexts = [False],
     trace = example_probes @
       [EvStartEtcd example_config (Inr 0), EvSelect 0 10000000000 True, EvWithCancel 0]\<rparr>"

definition world_timed_out :: world where
  "world_timed_out = \<lparr>lastPort = 2381, contexts = [],
     trace = example_probes @
       [EvStartEtcd example_config (Inr 0), EvSelect 0 10000000000 False, EvEtcdClose 0]\<rparr>"

definition world_launch_failed :: world where
  "world_launch_failed = \<lparr>lastPort = 2381, contexts = [],
     trace = example_probes @
       [EvStartEtcd example_config (Inl (Error ''member has already been bootstrapped''))]\<rparr>"


text \<open>What holds of concurrent calls, from any cursor, as long as no goroutine is spent:
  the candidates handed out so far are all below 65535, so they are the cursor's
  successive values without a wrap between them, and no two goroutines hold the same.\<close>

definition unspent_inv :: "process \<Rightarrow> bool" where
  "unspent_inv s \<longleftrightarrow>
     (\<exists>g\<in>set (goroutines s). spent g) \<or>
     (\<forall>i<length (goroutines s). \<forall>port. held_port (goroutines s ! i) = Some port \<longrightarrow>
        port \<le> cursor s \<and> cursor s < 65535) \<and>
     (\<forall>i<length (goroutines s). \<forall>j<length (goroutines s). i \<noteq> j \<longrightarrow>
        held_port (goroutines s ! i) \<noteq> None \<longrightarrow>
        held_port (goroutines s ! i) \<noteq> held_port (goroutines s ! j))"



section \<open>Properties of getFreePort\<close>

lemma trace_log [simp]: "trace (log e w) = trace w @ [e]"
  by (simp add: log_def)

lemma contexts_log [simp]: "contexts (log e w) = contexts w"
  by (simp add: log_def)

lemma AddUint32_lastPort_1:
  "AddUint32_lastPort 1 w = (lastPort w + 1, w\<lparr>lastPort := lastPort w + 1\<rparr>)"
  by (simp add: AddUint32_lastPort_def Let_def)

text \<open>One iteration of the loop, case by case.\<close>

lemma getFreePort_loop_stop:
  "\<not> port < 65535 \<Longrightarrow>
   getFreePort_loop en port w = (Panic ''no ports available for listening'', w)"
  by (simp add: getFreePort_loop.simps)

lemma getFreePort_loop_found:
  "port < 65535 \<Longrightarrow> a = Sprintf_addr (uint port) \<Longrightarrow> net_Listen en (trace w) a \<Longrightarrow>
   Listener_Close en (trace w @ [EvListen a True]) a \<Longrightarrow>
   getFreePort_loop en port w =
     (Return (uint port), log (EvListenerClose a True) (log (EvListen a True) w))"
  by (subst getFreePort_loop.simps) (simp add: Listen_def Close_listener_def Let_def)

lemma getFreePort_loop_listen_fails:
  "port < 65535 \<Longrightarrow> a = Sprintf_addr (uint port) \<Longrightarrow> \<not> net_Listen en (trace w) a \<Longrightarrow>
   getFreePort_loop en port w =
     getFreePort_loop en (lastPort w + 1) ((log (EvListen a False) w)\<lparr>lastPort := lastPort w + 1\<rparr>)"
  by (subst getFreePort_loop.simps) (simp add: Listen_def AddUint32_lastPort_1 Let_def)

lemma getFreePort_loop_close_fails:
  "port < 65535 \<Longrightarrow> a = Sprintf_addr (uint port) \<Longrightarrow> net_Listen en (trace w) a \<Longrightarrow>
   \<not> Listener_Close en (trace w @ [EvListen a True]) a \<Longrightarrow>
   getFreePort_loop en port w =
     getFreePort_loop en (lastPort w + 1)
       ((log (EvListenerClose a False) (log (EvListen a True) w))\<lparr>lastPort := lastPort w + 1\<rparr>)"
  by (subst getFreePort_loop.simps) (simp add: Listen_def Close_listener_def AddUint32_lastPort_1 Let_def)

text \<open>Induction over the iterations: a property of the loop follows from the same property
  one increment later.\<close>

lemma getFreePort_loop_induct [case_names step]:
  fixes P :: "uint32 \<Rightarrow> world \<Rightarrow> bool"
  assumes step: "\<And>port w. (\<And>w'. port < 65535 \<Longrightarrow> lastPort w' = lastPort w + 1 \<Longrightarrow> P (lastPort w + 1) w') \<Longrightarrow> P port w"
  shows "P port w"
proof (induction "iterations_left port w" arbitrary: port w rule: less_induct)
  case less
  show ?case
  proof (rule step)
    fix w' :: world
    assume "port < 65535" and "lastPort w' = lastPort w + 1"
    then have "iterations_left (lastPort w + 1) w' < iterations_left port w"
      by (rule iterations_left_decreases)
    then show "P (lastPort w + 1) w'"
      by (rule less)
  qed
qed

lemma call_events_append: "trace w' = trace w @ evs \<Longrightarrow> call_events w w' = evs"
  by (simp add: call_events_def)

lemma loop_post_step:
  assumes "loop_post w1 r w'" and "trace w1 = trace w @ pre" and "contexts w1 = contexts w"
    and "\<forall>e\<in>set pre. is_probe e \<and> \<not> probe_succeeded e"
  shows "loop_post w r w'"
proof -
  from assms(1) obtain evs where evs: "trace w' = trace w1 @ evs" "contexts w' = contexts w1"
    "\<forall>e\<in>set evs. is_probe e"
    "case r of
           Panic m \<Rightarrow> m = ''no ports available for listening'' \<and> (\<forall>e\<in>set evs. \<not> probe_succeeded e)
         | Return p \<Rightarrow> p = uint (lastPort w') \<and>
             (\<exists>evs0. evs = evs0 @ [EvListen (Sprintf_addr p) True, EvListenerClose (Sprintf_addr p) True]
                \<and> (\<forall>e\<in>set evs0. \<not> probe_succeeded e))"
    unfolding loop_post_def by blast
  show ?thesis
    unfolding loop_post_def
  proof (intro exI [of _ "pre @ evs"] conjI)
    show "trace w' = trace w @ pre @ evs" using evs(1) assms(2) by simp
    show "contexts w' = contexts w" using evs(2) assms(3) by simp
    show "\<forall>e\<in>set (pre @ evs). is_probe e" using evs(3) assms(4) by auto
    show "case r of
           Panic m \<Rightarrow> m = ''no ports available for listening'' \<and> (\<forall>e\<in>set (pre @ evs). \<not> probe_succeeded e)
         | Return p \<Rightarrow> p = uint (lastPort w') \<and>
             (\<exists>evs0. pre @ evs = evs0 @ [EvListen (Sprintf_addr p) True, EvListenerClose (Sprintf_addr p) True]
                \<and> (\<forall>e\<in>set evs0. \<not> probe_succeeded e))"
    proof (cases r)
      case (Panic m)
      with evs(4) assms(4) show ?thesis by auto
    next
      case (Return p)
      with evs(4) obtain evs0 where "p = uint (lastPort w')"
        "evs = evs0 @ [EvListen (Sprintf_addr p) True, EvListenerClose (Sprintf_addr p) True]"
        "\<forall>e\<in>set evs0. \<not> probe_succeeded e" by auto
      with assms(4) Return show ?thesis
        by (auto intro!: exI [of _ "pre @ evs0"])
    qed
  qed
qed

lemma getFreePort_loop_post:
  "port = lastPort w \<Longrightarrow> getFreePort_loop en port w = (r, w') \<Longrightarrow> loop_post w r w'"
proof (induction port w rule: getFreePort_loop_induct)
  case (step port w)
  let ?a = "Sprintf_addr (uint port)"
  show ?case
  proof (cases "port < 65535")
    case False
    with step.prems show ?thesis
      by (auto simp: getFreePort_loop_stop loop_post_def)
  next
    case below: True
    show ?thesis
    proof (cases "net_Listen en (trace w) ?a")
      case False
      let ?w1 = "(log (EvListen ?a False) w)\<lparr>lastPort := lastPort w + 1\<rparr>"
      from below False step.prems have "getFreePort_loop en (lastPort w + 1) ?w1 = (r, w')"
        by (simp add: getFreePort_loop_listen_fails)
      then have "loop_post ?w1 r w'"
        using step.IH [of ?w1] below by simp
      then show ?thesis
        by (rule loop_post_step [where pre = "[EvListen ?a False]"]) simp_all
    next
      case listening: True
      show ?thesis
      proof (cases "Listener_Close en (trace w @ [EvListen ?a True]) ?a")
        case False
        let ?w1 = "(log (EvListenerClose ?a False) (log (EvListen ?a True) w))\<lparr>lastPort := lastPort w + 1\<rparr>"
        from below listening False step.prems have "getFreePort_loop en (lastPort w + 1) ?w1 = (r, w')"
          by (simp add: getFreePort_loop_close_fails)
        then have "loop_post ?w1 r w'"
          using step.IH [of ?w1] below by simp
        then show ?thesis
          by (rule loop_post_step [where pre = "[EvListen ?a True, EvListenerClose ?a False]"]) simp_all
      next
        case True
        with below listening step.prems show ?thesis
          by (auto simp: getFreePort_loop_found loop_post_def)
      qed
    qed
  qed
qed

lemma getFreePort_loop_cursor:
  "port = lastPort w \<Longrightarrow> getFreePort_loop en port w = (r, w') \<Longrightarrow>
   lastPort w \<le> lastPort w' \<and> ((\<exists>p. r = Return p) \<longleftrightarrow> lastPort w' < 65535) \<and>
   (lastPort w < 65535 \<longrightarrow> lastPort w' \<le> 65535)"
proof (induction port w rule: getFreePort_loop_induct)
  case (step port w)
  let ?a = "Sprintf_addr (uint port)"
  show ?case
  proof (cases "port < 65535")
    case False
    with step.prems show ?thesis
      by (auto simp: getFreePort_loop_stop)
  next
    case below: True
    then have up: "lastPort w \<le> lastPort w + 1"
      using step.prems(1) by (simp add: word_le_nat_alt unat_succ_below)
    have rec: "lastPort w \<le> lastPort w' \<and> ((\<exists>p. r = Return p) \<longleftrightarrow> lastPort w' < 65535) \<and>
        (lastPort w < 65535 \<longrightarrow> lastPort w' \<le> 65535)"
      if "getFreePort_loop en (lastPort w + 1) w1 = (r, w')" and "lastPort w1 = lastPort w + 1"
      for w1
    proof -
      from step.IH [OF below that(2) _ that(1)] that(2)
      have "lastPort w + 1 \<le> lastPort w'" "(\<exists>p. r = Return p) \<longleftrightarrow> lastPort w' < 65535"
        "lastPort w + 1 < 65535 \<longrightarrow> lastPort w' \<le> 65535"
        by simp_all
      moreover have "lastPort w' \<le> 65535" if "\<not> lastPort w + 1 < 65535"
      proof -
        from that have "getFreePort_loop en (lastPort w + 1) w1 = (Panic ''no ports available for listening'', w1)"
          by (rule getFreePort_loop_stop)
        with \<open>getFreePort_loop en (lastPort w + 1) w1 = (r, w')\<close> have "w' = w1" by simp
        moreover from below step.prems(1) have "unat (lastPort w + 1) \<le> 65535"
          by (simp add: unat_succ_below) (simp add: word_less_nat_alt)
        ultimately show ?thesis
          using \<open>lastPort w1 = lastPort w + 1\<close> by (simp add: word_le_nat_alt)
      qed
      ultimately show ?thesis using up by auto
    qed
    show ?thesis
    proof (cases "net_Listen en (trace w) ?a")
      case False
      let ?w1 = "(log (EvListen ?a False) w)\<lparr>lastPort := lastPort w + 1\<rparr>"
      from below False step.prems have "getFreePort_loop en (lastPort w + 1) ?w1 = (r, w')"
        by (simp add: getFreePort_loop_listen_fails)
      then show ?thesis by (rule rec) simp
    next
      case listening: True
      show ?thesis
      proof (cases "Listener_Close en (trace w @ [EvListen ?a True]) ?a")
        case False
        let ?w1 = "(log (EvListenerClose ?a False) (log (EvListen ?a True) w))\<lparr>lastPort := lastPort w + 1\<rparr>"
        from below listening False step.prems have "getFreePort_loop en (lastPort w + 1) ?w1 = (r, w')"
          by (simp add: getFreePort_loop_close_fails)
        then show ?thesis by (rule rec) simp
      next
        case True
        with below listening step.prems show ?thesis
          by (auto simp: getFreePort_loop_found)
      qed
    qed
  qed
qed

lemma getFreePort_unfold:
  "getFreePort en w =
     (let (port, w1) = AddUint32_lastPort 1 w
      in if port < 65535 then
           (let addr = Sprintf_addr (uint port);
                (l_ok, w2) = Listen en addr w1
            in if l_ok then
                 (let (c_ok, w3) = Close_listener en addr w2
                  in if c_ok then (Return (uint port), w3) else getFreePort en w3)
               else getFreePort en w2)
         else (Panic ''no ports available for listening'', w1))"
proof -
  have entry: "getFreePort en v = getFreePort_loop en (lastPort v + 1) (v\<lparr>lastPort := lastPort v + 1\<rparr>)"
    for v
    by (simp add: getFreePort_def AddUint32_lastPort_1)
  show ?thesis
    apply (subst entry)
    apply (subst getFreePort_loop.simps)
    apply (simp add: entry AddUint32_lastPort_1 Let_def Listen_def Close_listener_def)
    done
qed

text \<open>\<open>getFreePort\<close> is the loop after the first increment.\<close>

lemma getFreePort_entry:
  "getFreePort en w = getFreePort_loop en (lastPort w + 1) (w\<lparr>lastPort := lastPort w + 1\<rparr>)"
  by (simp add: getFreePort_def AddUint32_lastPort_1)

lemma getFreePort_post: "getFreePort en w = (r, w') \<Longrightarrow> loop_post w r w'"
proof -
  assume "getFreePort en w = (r, w')"
  then have "loop_post (w\<lparr>lastPort := lastPort w + 1\<rparr>) r w'"
    by (simp add: getFreePort_entry getFreePort_loop_post)
  then show ?thesis
    by (rule loop_post_step [where pre = "[]"]) simp_all
qed

lemma getFreePort_cursor:
  assumes "getFreePort en w = (r, w')"
  shows "lastPort w + 1 \<le> lastPort w'" and "(\<exists>p. r = Return p) \<longleftrightarrow> lastPort w' < 65535"
    and "lastPort w < 65535 \<Longrightarrow> lastPort w' \<le> 65535"
proof -
  let ?w1 = "w\<lparr>lastPort := lastPort w + 1\<rparr>"
  from assms have loop: "getFreePort_loop en (lastPort ?w1) ?w1 = (r, w')"
    by (simp add: getFreePort_entry)
  from getFreePort_loop_cursor [OF refl loop]
  show "lastPort w + 1 \<le> lastPort w'" and ret: "(\<exists>p. r = Return p) \<longleftrightarrow> lastPort w' < 65535"
    by simp_all
  show "lastPort w' \<le> 65535" if "lastPort w < 65535"
  proof (cases "lastPort w + 1 < 65535")
    case True
    with getFreePort_loop_cursor [OF refl loop] show ?thesis by simp
  next
    case False
    then have "getFreePort_loop en (lastPort w + 1) ?w1 = (Panic ''no ports available for listening'', ?w1)"
      by (rule getFreePort_loop_stop)
    with loop have "w' = ?w1" by simp
    moreover from that have "unat (lastPort w + 1) \<le> 65535"
      by (simp add: unat_succ_below) (simp add: word_less_nat_alt)
    ultimately show ?thesis
      by (simp add: word_le_nat_alt)
  qed
qed

lemma getFreePort_returns:
  assumes "getFreePort en w = (Return p, w')"
  shows "p = uint (lastPort w')" and "lastPort w' < 65535" and "lastPort w + 1 \<le> lastPort w'"
proof -
  from getFreePort_post [OF assms] show "p = uint (lastPort w')"
    by (auto simp: loop_post_def)
  from getFreePort_cursor(2) [OF assms] show "lastPort w' < 65535" by simp
  from getFreePort_cursor(1) [OF assms] show "lastPort w + 1 \<le> lastPort w'" .
qed

lemma getFreePort_keeps_range:
  assumes "cursor_in_range w" and "getFreePort en w = (Return p, w')"
  shows "cursor_in_range w'" and "lastPort w < lastPort w'"
proof -
  from assms(1) have "lastPort w < 65535" and low: "defaultEtcdPort \<le> lastPort w"
    by (simp_all add: cursor_in_range_def)
  then have "lastPort w < lastPort w + 1"
    by (simp add: word_less_nat_alt unat_succ_below)
  with getFreePort_returns(3) [OF assms(2)] show up: "lastPort w < lastPort w'"
    by simp
  with low getFreePort_returns(2) [OF assms(2)] show "cursor_in_range w'"
    by (simp add: cursor_in_range_def)
qed

lemma Sprintf_addr_examples:
  "Sprintf_addr 2380 = ''127.0.0.1:2380''" "Sprintf_addr 2381 = ''127.0.0.1:2381''"
  by (simp_all add: Sprintf_addr_def fmt_d_def fmt_nat.simps digit_char_def)

lemma getFreePort_loop_trace:
  "port = lastPort w \<Longrightarrow> getFreePort_loop en port w = (r, w') \<Longrightarrow>
   trace w' = trace w @ call_events w w'"
  by (drule (1) getFreePort_loop_post) (auto simp: loop_post_def call_events_def)

lemma probes_step:
  assumes "trace w1 = trace w @ pre" and "trace w' = trace w1 @ call_events w1 w'"
  shows "probes w w' = length (filter is_listen pre) + probes w1 w'"
proof -
  from assms have "trace w' = trace w @ (pre @ call_events w1 w')" by simp
  then have "call_events w w' = pre @ call_events w1 w'"
    by (rule call_events_append)
  then show ?thesis by (simp add: probes_def)
qed

lemma getFreePort_loop_increments:
  "port = lastPort w \<Longrightarrow> getFreePort_loop en port w = (r, w') \<Longrightarrow>
   lastPort w' + (case r of Panic m \<Rightarrow> 0 | Return p \<Rightarrow> 1) = lastPort w + of_nat (probes w w')"
proof (induction port w rule: getFreePort_loop_induct)
  case (step port w)
  let ?a = "Sprintf_addr (uint port)"
  show ?case
  proof (cases "port < 65535")
    case False
    with step.prems show ?thesis
      by (auto simp: getFreePort_loop_stop probes_def call_events_def)
  next
    case below: True
    show ?thesis
    proof (cases "net_Listen en (trace w) ?a")
      case False
      let ?w1 = "(log (EvListen ?a False) w)\<lparr>lastPort := lastPort w + 1\<rparr>"
      from below False step.prems have loop: "getFreePort_loop en (lastPort w + 1) ?w1 = (r, w')"
        by (simp add: getFreePort_loop_listen_fails)
      then have "lastPort w' + (case r of Panic m \<Rightarrow> 0 | Return p \<Rightarrow> 1) =
          lastPort ?w1 + of_nat (probes ?w1 w')"
        using step.IH [of ?w1] below by simp
      moreover have "probes w w' = length (filter is_listen [EvListen ?a False]) + probes ?w1 w'"
        by (rule probes_step) (simp_all add: getFreePort_loop_trace [OF _ loop])
      ultimately show ?thesis by simp
    next
      case listening: True
      show ?thesis
      proof (cases "Listener_Close en (trace w @ [EvListen ?a True]) ?a")
        case False
        let ?w1 = "(log (EvListenerClose ?a False) (log (EvListen ?a True) w))\<lparr>lastPort := lastPort w + 1\<rparr>"
        from below listening False step.prems have loop: "getFreePort_loop en (lastPort w + 1) ?w1 = (r, w')"
          by (simp add: getFreePort_loop_close_fails)
        then have "lastPort w' + (case r of Panic m \<Rightarrow> 0 | Return p \<Rightarrow> 1) =
            lastPort ?w1 + of_nat (probes ?w1 w')"
          using step.IH [of ?w1] below by simp
        moreover have "probes w w' =
            length (filter is_listen [EvListen ?a True, EvListenerClose ?a False]) + probes ?w1 w'"
          by (rule probes_step) (simp_all add: getFreePort_loop_trace [OF _ loop])
        ultimately show ?thesis by simp
      next
        case True
        with below listening step.prems show ?thesis
          by (auto simp: getFreePort_loop_found probes_def call_events_def)
      qed
    qed
  qed
qed

lemma getFreePort_increments:
  assumes "getFreePort en w = (r, w')"
  shows "lastPort w' = lastPort w + of_nat (probes w w' + (case r of Panic m \<Rightarrow> 1 | Return p \<Rightarrow> 0))"
proof -
  let ?w1 = "w\<lparr>lastPort := lastPort w + 1\<rparr>"
  from assms have loop: "getFreePort_loop en (lastPort ?w1) ?w1 = (r, w')"
    by (simp add: getFreePort_entry)
  have "probes w w' = probes ?w1 w'"
    by (simp add: probes_def call_events_def)
  with getFreePort_loop_increments [OF refl loop] show ?thesis
    by (cases r) (simp_all add: algebra_simps)
qed

lemma getFreePort_panics_iff:
  assumes "getFreePort en w = (r, w')"
  shows "r = Panic ''no ports available for listening'' \<longleftrightarrow> 65535 \<le> lastPort w'"
proof -
  from getFreePort_post [OF assms] have "r = Panic ''no ports available for listening'' \<or> (\<exists>p. r = Return p)"
    by (cases r) (auto simp: loop_post_def)
  with getFreePort_cursor(2) [OF assms] show ?thesis
    by (auto simp: not_less)
qed

lemma getFreePort_panics_iff_no_success:
  assumes "getFreePort en w = (r, w')"
  shows "r = Panic ''no ports available for listening'' \<longleftrightarrow>
    (\<forall>e\<in>set (call_events w w'). \<not> probe_succeeded e)"
proof -
  from getFreePort_post [OF assms] obtain evs where evs: "trace w' = trace w @ evs"
    "case r of
       Panic m \<Rightarrow> m = ''no ports available for listening'' \<and> (\<forall>e\<in>set evs. \<not> probe_succeeded e)
     | Return p \<Rightarrow> p = uint (lastPort w') \<and>
         (\<exists>evs0. evs = evs0 @ [EvListen (Sprintf_addr p) True, EvListenerClose (Sprintf_addr p) True]
            \<and> (\<forall>e\<in>set evs0. \<not> probe_succeeded e))"
    unfolding loop_post_def by blast
  from evs(1) have "call_events w w' = evs" by (rule call_events_append)
  with evs(2) show ?thesis
    by (cases r) auto
qed

lemma call_events_step:
  assumes "trace w1 = trace w @ pre" and "trace w' = trace w1 @ call_events w1 w'"
  shows "call_events w w' = pre @ call_events w1 w'"
proof -
  from assms have "trace w' = trace w @ (pre @ call_events w1 w')" by simp
  then show ?thesis by (rule call_events_append)
qed

lemma getFreePort_loop_probed:
  "port = lastPort w \<Longrightarrow> getFreePort_loop en port w = (r, w') \<Longrightarrow>
   \<forall>e\<in>set (call_events w w').
     \<exists>q. probed_addr e = Some (Sprintf_addr (uint q)) \<and> lastPort w \<le> q \<and> q < 65535"
proof (induction port w rule: getFreePort_loop_induct)
  case (step port w)
  let ?a = "Sprintf_addr (uint port)"
  show ?case
  proof (cases "port < 65535")
    case False
    with step.prems show ?thesis
      by (auto simp: getFreePort_loop_stop call_events_def)
  next
    case below: True
    then have up: "lastPort w \<le> lastPort w + 1"
      using step.prems(1) by (simp add: word_le_nat_alt unat_succ_below)
    have retry: ?thesis
      if loop: "getFreePort_loop en (lastPort w + 1) w1 = (r, w')" and w1: "lastPort w1 = lastPort w + 1"
        and tr: "trace w1 = trace w @ pre" and pre: "\<forall>e\<in>set pre. probed_addr e = Some ?a"
      for w1 pre
    proof -
      from w1 have entry: "lastPort w + 1 = lastPort w1" by simp
      from step.IH [OF below w1 entry loop] w1
      have rest: "\<forall>e\<in>set (call_events w1 w').
          \<exists>q. probed_addr e = Some (Sprintf_addr (uint q)) \<and> lastPort w + 1 \<le> q \<and> q < 65535"
        by simp
      from loop entry have "trace w' = trace w1 @ call_events w1 w'"
        by (intro getFreePort_loop_trace [of "lastPort w + 1" w1 en r w']) simp_all
      with tr have "call_events w w' = pre @ call_events w1 w'"
        by (rule call_events_step)
      moreover have "\<exists>q. probed_addr e = Some (Sprintf_addr (uint q)) \<and> lastPort w \<le> q \<and> q < 65535"
        if "e \<in> set pre" for e
        using that pre below step.prems(1) by (intro exI [of _ port]) simp
      moreover have "\<exists>q. probed_addr e = Some (Sprintf_addr (uint q)) \<and> lastPort w \<le> q \<and> q < 65535"
        if "e \<in> set (call_events w1 w')" for e
      proof -
        from rest that obtain q where "probed_addr e = Some (Sprintf_addr (uint q))"
          "lastPort w + 1 \<le> q" "q < 65535" by blast
        with up show ?thesis by (intro exI [of _ q]) simp
      qed
      ultimately show ?thesis by auto
    qed
    show ?thesis
    proof (cases "net_Listen en (trace w) ?a")
      case False
      let ?w1 = "(log (EvListen ?a False) w)\<lparr>lastPort := lastPort w + 1\<rparr>"
      from below False step.prems have "getFreePort_loop en (lastPort w + 1) ?w1 = (r, w')"
        by (simp add: getFreePort_loop_listen_fails)
      then show ?thesis
        by (rule retry [where pre = "[EvListen ?a False]"]) simp_all
    next
      case listening: True
      show ?thesis
      proof (cases "Listener_Close en (trace w @ [EvListen ?a True]) ?a")
        case False
        let ?w1 = "(log (EvListenerClose ?a False) (log (EvListen ?a True) w))\<lparr>lastPort := lastPort w + 1\<rparr>"
        from below listening False step.prems have "getFreePort_loop en (lastPort w + 1) ?w1 = (r, w')"
          by (simp add: getFreePort_loop_close_fails)
        then show ?thesis
          by (rule retry [where pre = "[EvListen ?a True, EvListenerClose ?a False]"]) simp_all
      next
        case True
        with below listening step.prems
        have "call_events w w' = [EvListen ?a True, EvListenerClose ?a True]"
          by (auto simp: getFreePort_loop_found call_events_def)
        with below step.prems(1) show ?thesis
          by (auto intro!: exI [of _ port])
      qed
    qed
  qed
qed

lemma getFreePort_probed:
  assumes "getFreePort en w = (r, w')" and "lastPort w < 65535"
  shows "\<forall>e\<in>set (call_events w w').
     \<exists>q. probed_addr e = Some (Sprintf_addr q) \<and> uint (lastPort w) < q \<and> q < 65535"
proof
  fix e
  assume e: "e \<in> set (call_events w w')"
  let ?w1 = "w\<lparr>lastPort := lastPort w + 1\<rparr>"
  from assms(1) have loop: "getFreePort_loop en (lastPort ?w1) ?w1 = (r, w')"
    by (simp add: getFreePort_entry)
  have "call_events ?w1 w' = call_events w w'"
    by (simp add: call_events_def)
  with getFreePort_loop_probed [OF refl loop] e obtain q where
    q: "probed_addr e = Some (Sprintf_addr (uint q))" "lastPort w + 1 \<le> q" "q < 65535"
    by auto
  from assms(2) have "unat (lastPort w + 1) = Suc (unat (lastPort w))"
    by (rule unat_succ_below)
  with q(2) have "lastPort w < q"
    by (simp add: word_le_nat_alt word_less_nat_alt)
  with q(1,3) show "\<exists>q. probed_addr e = Some (Sprintf_addr q) \<and> uint (lastPort w) < q \<and> q < 65535"
    by (intro exI [of _ "uint q"]) (simp add: word_less_def)
qed

text \<open>The five ways in which a call of \<open>NewEmbeddedEtcdInstance\<close> ends, and the cursor in
  the worlds that a process reaches.\<close>

lemma NewEmbeddedEtcdInstance_cases [consumes 1, case_names panic1 panic2 launch_failed timed_out ready]:
  assumes "NewEmbeddedEtcdInstance en path w = (r, w')"
  obtains
    (panic1) msg where "getFreePort en w = (Panic msg, w')" and "r = Panic msg"
  | (panic2) port1 w1 msg where "getFreePort en w = (Return port1, w1)"
      and "getFreePort en w1 = (Panic msg, w')" and "r = Panic msg"
  | (launch_failed) port1 w1 port2 w2 cfg err where "getFreePort en w = (Return port1, w1)"
      and "getFreePort en w1 = (Return port2, w2)"
      and "cfg = startup_config en path port1 port2"
      and "r = Return (None, None, Some err)"
      and "w' = log (EvStartEtcd cfg (Inl err)) w2"
  | (timed_out) port1 w1 port2 w2 cfg etcd where "getFreePort en w = (Return port1, w1)"
      and "getFreePort en w1 = (Return port2, w2)"
      and "cfg = startup_config en path port1 port2"
      and "r = Return (None, None, Some (Errorf_timeout en readyTimeout))"
      and "w' = log (EvEtcdClose etcd) (log (EvSelect etcd readyTimeout False)
                  (log (EvStartEtcd cfg (Inr etcd)) w2))"
  | (ready) port1 w1 port2 w2 cfg etcd ctx where "getFreePort en w = (Return port1, w1)"
      and "getFreePort en w1 = (Return port2, w2)"
      and "cfg = startup_config en path port1 port2"
      and "ctx = length (contexts w2)"
      and "r = Return (Some \<lparr>Ctx = ctx, Host = ''http://'' @ Sprintf_addr port2, User = ''user'',
                 Pass = ''pass'', InsecureSkipVerify = True\<rparr>,
               Some (\<lambda>v. Etcd_Close etcd (cancel ctx v)), None)"
      and "w' = log (EvWithCancel ctx)
                  ((log (EvSelect etcd readyTimeout True) (log (EvStartEtcd cfg (Inr etcd)) w2))
                     \<lparr>contexts := contexts w2 @ [False]\<rparr>)"
  using assms
  unfolding NewEmbeddedEtcdInstance_def StartEtcd_def select_ReadyNotify_def Etcd_Close_def
    WithCancel_def startup_config_def Let_def
  by (auto split: prod.splits go_result.splits sum.splits bool.splits simp: log_def)

lemma lastPort_cancel [simp]: "lastPort (cancel ctx w) = lastPort w"
  by (simp add: cancel_def)

lemma lastPort_Etcd_Close [simp]: "lastPort (Etcd_Close etcd w) = lastPort w"
  by (simp add: Etcd_Close_def)

lemma NewEmbeddedEtcdInstance_keeps_range:
  assumes "cursor_in_range w" and "NewEmbeddedEtcdInstance en path w = (Return res, w')"
  shows "cursor_in_range w'"
  using assms(2)
proof (cases rule: NewEmbeddedEtcdInstance_cases)
  case (launch_failed port1 w1 port2 w2 cfg err)
  from getFreePort_keeps_range(1) [OF getFreePort_keeps_range(1) [OF assms(1) launch_failed(1)] launch_failed(2)]
  show ?thesis using launch_failed(5) by (simp add: cursor_in_range_def)
next
  case (timed_out port1 w1 port2 w2 cfg etcd)
  from getFreePort_keeps_range(1) [OF getFreePort_keeps_range(1) [OF assms(1) timed_out(1)] timed_out(2)]
  show ?thesis using timed_out(5) by (simp add: cursor_in_range_def)
next
  case (ready port1 w1 port2 w2 cfg etcd ctx)
  from getFreePort_keeps_range(1) [OF getFreePort_keeps_range(1) [OF assms(1) ready(1)] ready(2)]
  show ?thesis using ready(6) by (simp add: cursor_in_range_def)
qed simp_all

lemma cleanup_lastPort:
  assumes "NewEmbeddedEtcdInstance en path v = (Return (c, Some f, e), v')"
  shows "lastPort (f w) = lastPort w"
  using assms by (cases rule: NewEmbeddedEtcdInstance_cases) auto

lemma reachable_cursor_in_range: "reachable w \<Longrightarrow> cursor_in_range w"
proof (induction rule: reachable.induct)
  case at_start
  show ?case by (simp add: cursor_in_range_def init_world_def defaultEtcdPort_def)
next
  case (after_port w en p w')
  then show ?case by (simp add: getFreePort_keeps_range(1))
next
  case (after_instance w en path res w')
  then show ?case by (simp add: NewEmbeddedEtcdInstance_keeps_range)
next
  case (after_cleanup w en path v c f e v')
  then show ?case by (simp add: cursor_in_range_def cleanup_lastPort)
qed

text \<open>
  The algorithm, and the cursor before it wraps around. A call of \<open>getFreePort\<close>
  increments the cursor and takes the new value as its candidate; below 65535 it opens a listener on 127.0.0.1 at the candidate and closes it
  at once, returns the candidate when both succeed, and otherwise starts over, from the
  increment. The cursor changes by these increments only, one for each candidate, and
  in a process whose calls follow one another it is larger after every call.
\<close>

theorem getFreePort_algorithm:
  assumes "getFreePort en w = (r, w')"
  shows "getFreePort en w =
           (let (port, w1) = AddUint32_lastPort 1 w
            in if port < 65535 then
                 (let addr = Sprintf_addr (uint port);
                      (l_ok, w2) = Listen en addr w1
                  in if l_ok then
                       (let (c_ok, w3) = Close_listener en addr w2
                        in if c_ok then (Return (uint port), w3) else getFreePort en w3)
                     else getFreePort en w2)
               else (Panic ''no ports available for listening'', w1)) \<and>
         lastPort w' =
           lastPort w + of_nat (probes w w' + (case r of Panic m \<Rightarrow> 1 | Return p \<Rightarrow> 0)) \<and>
         (reachable w \<longrightarrow> lastPort w < lastPort w')"
proof (intro conjI impI)
  show "getFreePort en w =
           (let (port, w1) = AddUint32_lastPort 1 w
            in if port < 65535 then
                 (let addr = Sprintf_addr (uint port);
                      (l_ok, w2) = Listen en addr w1
                  in if l_ok then
                       (let (c_ok, w3) = Close_listener en addr w2
                        in if c_ok then (Return (uint port), w3) else getFreePort en w3)
                     else getFreePort en w2)
               else (Panic ''no ports available for listening'', w1))"
    by (rule getFreePort_unfold)
  show "lastPort w' =
      lastPort w + of_nat (probes w w' + (case r of Panic m \<Rightarrow> 1 | Return p \<Rightarrow> 0))"
    by (rule getFreePort_increments [OF assms])
  assume "reachable w"
  then have "lastPort w < 65535"
    using reachable_cursor_in_range by (simp add: cursor_in_range_def)
  then have "lastPort w < lastPort w + 1"
    by (simp add: word_less_nat_alt unat_succ_below)
  with getFreePort_cursor(1) [OF assms] show "lastPort w < lastPort w'"
    by simp
qed

theorem getFreePort_algorithm_witness:
  "reachable init_world \<and>
   getFreePort close_fails_2380 init_world =
     (Return 2381, \<lparr>lastPort = 2381, contexts = [],
        trace = [EvListen ''127.0.0.1:2380'' True, EvListenerClose ''127.0.0.1:2380'' False,
                 EvListen ''127.0.0.1:2381'' True, EvListenerClose ''127.0.0.1:2381'' True]\<rparr>) \<and>
   lastPort init_world = 2379 \<and>
   probes init_world \<lparr>lastPort = 2381, contexts = [],
        trace = [EvListen ''127.0.0.1:2380'' True, EvListenerClose ''127.0.0.1:2380'' False,
                 EvListen ''127.0.0.1:2381'' True, EvListenerClose ''127.0.0.1:2381'' True]\<rparr> = 2"
proof -
  let ?w' = "\<lparr>lastPort = 2381, contexts = [],
        trace = [EvListen ''127.0.0.1:2380'' True, EvListenerClose ''127.0.0.1:2380'' False,
                 EvListen ''127.0.0.1:2381'' True, EvListenerClose ''127.0.0.1:2381'' True]\<rparr>"
  have addr: "Sprintf_addr 2380 = ''127.0.0.1:2380''" "Sprintf_addr 2381 = ''127.0.0.1:2381''"
    by (simp_all add: Sprintf_addr_def fmt_d_def fmt_nat.simps digit_char_def)
  have "getFreePort close_fails_2380 init_world =
      getFreePort_loop close_fails_2380 2380 \<lparr>lastPort = 2380, contexts = [], trace = []\<rparr>"
    by (simp add: getFreePort_entry init_world_def defaultEtcdPort_def)
  also have "\<dots> = getFreePort_loop close_fails_2380 2381 \<lparr>lastPort = 2381, contexts = [],
      trace = [EvListen ''127.0.0.1:2380'' True, EvListenerClose ''127.0.0.1:2380'' False]\<rparr>"
    by (subst getFreePort_loop_close_fails [where a = "''127.0.0.1:2380''"])
      (simp_all add: addr close_fails_2380_def all_free_def log_def)
  also have "\<dots> = (Return 2381, ?w')"
    by (subst getFreePort_loop_found [where a = "''127.0.0.1:2381''"])
      (simp_all add: addr close_fails_2380_def all_free_def log_def)
  finally have call: "getFreePort close_fails_2380 init_world = (Return 2381, ?w')" .
  from getFreePort_algorithm [OF call] call reachable.at_start show ?thesis
    by (simp add: probes_def call_events_def init_world_def defaultEtcdPort_def)
qed

text \<open>
  C3. A call of \<open>getFreePort\<close> panics exactly when none of its probes succeeded, and
  exactly when its last candidate, which the cursor holds, has reached 65535; so a call
  whose candidate exceeds 65535 without a successful probe panics and returns no port.
  A port that is returned is the candidate below 65535, and in a process whose calls
  follow one another it is a valid port number, between 1 and 65535.
\<close>

theorem getFreePort_exhausted_panics:
  assumes "getFreePort en w = (r, w')"
  shows "((\<forall>e\<in>set (call_events w w'). \<not> probe_succeeded e) \<longleftrightarrow>
            r = Panic ''no ports available for listening'') \<and>
         (65535 \<le> lastPort w' \<longleftrightarrow> r = Panic ''no ports available for listening'') \<and>
         (\<forall>p. r = Return p \<longrightarrow>
            p = uint (lastPort w') \<and> p < 65535 \<and> (reachable w \<longrightarrow> 1 \<le> p \<and> p \<le> 65535))"
proof (intro conjI allI impI)
  show "(\<forall>e\<in>set (call_events w w'). \<not> probe_succeeded e) \<longleftrightarrow>
      r = Panic ''no ports available for listening''"
    using getFreePort_panics_iff_no_success [OF assms] by simp
  show "65535 \<le> lastPort w' \<longleftrightarrow> r = Panic ''no ports available for listening''"
    using getFreePort_panics_iff [OF assms] by simp
next
  fix p
  assume ret: "r = Return p"
  with assms have call: "getFreePort en w = (Return p, w')" by simp
  show "p = uint (lastPort w')"
    by (rule getFreePort_returns(1) [OF call])
  from getFreePort_returns(1,2) [OF call] show "p < 65535"
    by (simp add: word_less_def)
  then show "p \<le> 65535" by simp
  assume "reachable w"
  then have "cursor_in_range w" by (rule reachable_cursor_in_range)
  from getFreePort_keeps_range(1) [OF this call] getFreePort_returns(1) [OF call]
  show "1 \<le> p"
    by (simp add: cursor_in_range_def defaultEtcdPort_def word_le_def)
qed

theorem getFreePort_exhausted_panics_witness:
  "getFreePort all_busy \<lparr>lastPort = 65533, contexts = [], trace = []\<rparr> =
     (Panic ''no ports available for listening'',
      \<lparr>lastPort = 65535, contexts = [], trace = [EvListen ''127.0.0.1:65534'' False]\<rparr>) \<and>
   call_events \<lparr>lastPort = 65533, contexts = [], trace = []\<rparr>
      \<lparr>lastPort = 65535, contexts = [], trace = [EvListen ''127.0.0.1:65534'' False]\<rparr> =
     [EvListen ''127.0.0.1:65534'' False] \<and>
   \<not> probe_succeeded (EvListen ''127.0.0.1:65534'' False) \<and>
   (65535 :: uint32) \<le> lastPort \<lparr>lastPort = 65535, contexts = [], trace = [EvListen ''127.0.0.1:65534'' False]\<rparr>"
proof -
  let ?w = "\<lparr>lastPort = 65533, contexts = [], trace = []\<rparr>"
  let ?w' = "\<lparr>lastPort = 65535, contexts = [], trace = [EvListen ''127.0.0.1:65534'' False]\<rparr>"
  have addr: "Sprintf_addr 65534 = ''127.0.0.1:65534''"
    by (simp add: Sprintf_addr_def fmt_d_def fmt_nat.simps digit_char_def)
  have "getFreePort all_busy ?w = getFreePort_loop all_busy 65534 (?w\<lparr>lastPort := 65534\<rparr>)"
    by (simp add: getFreePort_entry)
  also have "\<dots> = getFreePort_loop all_busy 65535 ?w'"
    by (subst getFreePort_loop_listen_fails [where a = "''127.0.0.1:65534''"])
      (simp_all add: addr all_busy_def log_def)
  also have "\<dots> = (Panic ''no ports available for listening'', ?w')"
    by (simp add: getFreePort_loop_stop)
  finally have call: "getFreePort all_busy ?w = (Panic ''no ports available for listening'', ?w')" .
  from getFreePort_exhausted_panics [OF call] call show ?thesis
    by (simp add: call_events_def)
qed

text \<open>
  The range of the ports before the cursor wraps around. In a process whose calls follow
  one another, every port that \<open>getFreePort\<close> returns is at least 2380 and at most 65534, and so is every port that it probes: the
  cursor starts at 2379 and is incremented before the first probe, and the loop runs only
  while the candidate is below 65535.
\<close>

theorem getFreePort_range:
  assumes "reachable w" and "getFreePort en w = (r, w')"
  shows "(\<forall>p. r = Return p \<longrightarrow> 2380 \<le> p \<and> p \<le> 65534) \<and>
         (\<forall>e\<in>set (call_events w w').
            \<exists>q. 2380 \<le> q \<and> q \<le> 65534 \<and> probed_addr e = Some (''127.0.0.1:'' @ fmt_d q))"
proof -
  from assms(1) have range: "cursor_in_range w" by (rule reachable_cursor_in_range)
  then have low: "2379 \<le> uint (lastPort w)" and below: "lastPort w < 65535"
    by (simp_all add: cursor_in_range_def defaultEtcdPort_def word_le_def)
  have returned: "2380 \<le> p \<and> p \<le> 65534" if "r = Return p" for p
  proof -
    from that assms(2) have call: "getFreePort en w = (Return p, w')" by simp
    from getFreePort_keeps_range [OF range call]
    have "lastPort w < lastPort w'" and "cursor_in_range w'" by simp_all
    with low have "2380 \<le> uint (lastPort w')" and "uint (lastPort w') < 65535"
      by (simp_all add: cursor_in_range_def word_less_def)
    moreover have "p = uint (lastPort w')"
      using getFreePort_returns(1) [OF call] .
    ultimately show ?thesis by simp
  qed
  have probed: "\<exists>q. 2380 \<le> q \<and> q \<le> 65534 \<and> probed_addr e = Some (''127.0.0.1:'' @ fmt_d q)"
    if "e \<in> set (call_events w w')" for e
  proof -
    from that getFreePort_probed [OF assms(2) below] obtain q where
      "probed_addr e = Some (Sprintf_addr q)" "uint (lastPort w) < q" "q < 65535"
      by blast
    with low show ?thesis
      by (intro exI [of _ q]) (simp add: Sprintf_addr_def)
  qed
  from returned probed show ?thesis by blast
qed

theorem getFreePort_range_witness:
  "reachable init_world \<and>
   getFreePort close_fails_2380 init_world =
     (Return 2381, \<lparr>lastPort = 2381, contexts = [],
        trace = [EvListen ''127.0.0.1:2380'' True, EvListenerClose ''127.0.0.1:2380'' False,
                 EvListen ''127.0.0.1:2381'' True, EvListenerClose ''127.0.0.1:2381'' True]\<rparr>) \<and>
   (2380 :: int) \<le> 2381 \<and> (2381 :: int) \<le> 65534 \<and>
   map probed_addr (call_events init_world \<lparr>lastPort = 2381, contexts = [],
        trace = [EvListen ''127.0.0.1:2380'' True, EvListenerClose ''127.0.0.1:2380'' False,
                 EvListen ''127.0.0.1:2381'' True, EvListenerClose ''127.0.0.1:2381'' True]\<rparr>) =
     [Some ''127.0.0.1:2380'', Some ''127.0.0.1:2380'', Some ''127.0.0.1:2381'',
      Some ''127.0.0.1:2381'']"
proof -
  let ?w' = "\<lparr>lastPort = 2381, contexts = [],
        trace = [EvListen ''127.0.0.1:2380'' True, EvListenerClose ''127.0.0.1:2380'' False,
                 EvListen ''127.0.0.1:2381'' True, EvListenerClose ''127.0.0.1:2381'' True]\<rparr>"
  have "getFreePort close_fails_2380 init_world =
      getFreePort_loop close_fails_2380 2380 \<lparr>lastPort = 2380, contexts = [], trace = []\<rparr>"
    by (simp add: getFreePort_entry init_world_def defaultEtcdPort_def)
  also have "\<dots> = getFreePort_loop close_fails_2380 2381 \<lparr>lastPort = 2381, contexts = [],
      trace = [EvListen ''127.0.0.1:2380'' True, EvListenerClose ''127.0.0.1:2380'' False]\<rparr>"
    by (subst getFreePort_loop_close_fails [where a = "''127.0.0.1:2380''"])
      (simp_all add: Sprintf_addr_examples close_fails_2380_def all_free_def log_def)
  also have "\<dots> = (Return 2381, ?w')"
    by (subst getFreePort_loop_found [where a = "''127.0.0.1:2381''"])
      (simp_all add: Sprintf_addr_examples close_fails_2380_def all_free_def log_def)
  finally have call: "getFreePort close_fails_2380 init_world = (Return 2381, ?w')" .
  have "map probed_addr (call_events init_world ?w') =
      [Some ''127.0.0.1:2380'', Some ''127.0.0.1:2380'', Some ''127.0.0.1:2381'',
       Some ''127.0.0.1:2381'']"
    by (simp add: call_events_def init_world_def)
  with getFreePort_range [OF reachable.at_start call] call reachable.at_start
  show ?thesis by simp
qed

section \<open>Properties of NewEmbeddedEtcdInstance\<close>

text \<open>Different numbers have different decimal forms, so different ports give different
  addresses.\<close>

lemma digit_char_inj:
  assumes "d < 10" and "e < 10" and "digit_char d = digit_char e"
  shows "d = e"
proof -
  have "distinct ''0123456789''" by simp
  moreover have "d < length ''0123456789''" and "e < length ''0123456789''"
    using assms(1,2) by simp_all
  ultimately show ?thesis
    using assms(3) unfolding digit_char_def by (simp only: nth_eq_iff_index_eq)
qed

lemma fmt_nat_nonempty: "fmt_nat n \<noteq> []"
  by (subst fmt_nat.simps) simp

lemma fmt_nat_inj: "fmt_nat n = fmt_nat m \<Longrightarrow> n = m"
proof (induction n arbitrary: m rule: less_induct)
  case (less n)
  show ?case
  proof (cases "n < 10")
    case small: True
    show ?thesis
    proof (cases "m < 10")
      case True
      with small less.prems show ?thesis
        by (simp add: fmt_nat.simps [of n] fmt_nat.simps [of m] digit_char_inj)
    next
      case False
      with small less.prems fmt_nat_nonempty [of "m div 10"] show ?thesis
        by (simp add: fmt_nat.simps [of n] fmt_nat.simps [of m])
    qed
  next
    case large: False
    show ?thesis
    proof (cases "m < 10")
      case True
      with large less.prems fmt_nat_nonempty [of "n div 10"] show ?thesis
        by (simp add: fmt_nat.simps [of n] fmt_nat.simps [of m])
    next
      case False
      with large less.prems have "fmt_nat (n div 10) = fmt_nat (m div 10)"
        and "digit_char (n mod 10) = digit_char (m mod 10)"
        by (simp_all add: fmt_nat.simps [of n] fmt_nat.simps [of m])
      moreover from large have "n div 10 < n" by simp
      ultimately have "n div 10 = m div 10" and "n mod 10 = m mod 10"
        by (simp_all add: less.IH digit_char_inj)
      then show ?thesis
        by (metis div_mult_mod_eq)
    qed
  qed
qed

lemma Sprintf_addr_inj:
  "0 \<le> i \<Longrightarrow> 0 \<le> j \<Longrightarrow> Sprintf_addr i = Sprintf_addr j \<Longrightarrow> i = j"
  by (auto simp: Sprintf_addr_def fmt_d_def dest!: fmt_nat_inj)

lemma filter_is_start_probes: "\<forall>e\<in>set evs. is_probe e \<Longrightarrow> filter is_start evs = []"
proof (induction evs)
  case Nil
  show ?case by simp
next
  case (Cons e evs)
  then show ?case by (cases e) simp_all
qed

text \<open>The five ways in which a call ends, with the events it appended to the trace.\<close>

lemma two_ports:
  assumes "getFreePort en w = (Return port1, w1)" and "getFreePort en w1 = (Return port2, w2)"
  obtains evs where "trace w2 = trace w @ evs" and "\<forall>e\<in>set evs. is_probe e"
    and "contexts w2 = contexts w" and "0 \<le> port1" and "port1 < port2" and "port2 < 65535"
proof -
  from getFreePort_post [OF assms(1)] obtain evs1 where 1: "trace w1 = trace w @ evs1"
    "contexts w1 = contexts w" "\<forall>e\<in>set evs1. is_probe e"
    unfolding loop_post_def by blast
  from getFreePort_post [OF assms(2)] obtain evs2 where 2: "trace w2 = trace w1 @ evs2"
    "contexts w2 = contexts w1" "\<forall>e\<in>set evs2. is_probe e"
    unfolding loop_post_def by blast
  have p1: "port1 = uint (lastPort w1)" and p2: "port2 = uint (lastPort w2)"
    by (rule getFreePort_returns(1) [OF assms(1)], rule getFreePort_returns(1) [OF assms(2)])
  from getFreePort_returns(2) [OF assms(1)] have "lastPort w1 < lastPort w1 + 1"
    by (simp add: word_less_nat_alt unat_succ_below)
  with getFreePort_returns(3) [OF assms(2)] have "lastPort w1 < lastPort w2" by simp
  then have lt: "port1 < port2" using p1 p2 by (simp add: word_less_def)
  from getFreePort_returns(2) [OF assms(2)] p2 have top: "port2 < 65535"
    by (simp add: word_less_def)
  have tr: "trace w2 = trace w @ (evs1 @ evs2)" using 1(1) 2(1) by simp
  have pr: "\<forall>e\<in>set (evs1 @ evs2). is_probe e" using 1(3) 2(3) by auto
  have cx: "contexts w2 = contexts w" using 1(2) 2(2) by simp
  have nn: "0 \<le> port1" using p1 by simp
  show ?thesis by (rule that [OF tr pr cx nn lt top])
qed

lemma NewEmbeddedEtcdInstance_events [consumes 1, case_names panic launch_failed timed_out ready]:
  assumes "NewEmbeddedEtcdInstance en path w = (r, w')"
  obtains
    (panic) msg where "r = Panic msg" and "\<forall>e\<in>set (call_events w w'). is_probe e"
      and "contexts w' = contexts w"
  | (launch_failed) port1 w1 port2 w2 evs err where "getFreePort en w = (Return port1, w1)"
      and "getFreePort en w1 = (Return port2, w2)"
      and "0 \<le> port1" and "port1 < port2" and "\<forall>e\<in>set evs. is_probe e"
      and "call_events w w' = evs @ [EvStartEtcd (startup_config en path port1 port2) (Inl err)]"
      and "r = Return (None, None, Some err)" and "contexts w' = contexts w"
  | (timed_out) port1 w1 port2 w2 evs etcd where "getFreePort en w = (Return port1, w1)"
      and "getFreePort en w1 = (Return port2, w2)"
      and "0 \<le> port1" and "port1 < port2" and "\<forall>e\<in>set evs. is_probe e"
      and "call_events w w' = evs @ [EvStartEtcd (startup_config en path port1 port2) (Inr etcd),
             EvSelect etcd readyTimeout False, EvEtcdClose etcd]"
      and "r = Return (None, None, Some (Errorf_timeout en readyTimeout))"
      and "contexts w' = contexts w"
  | (ready) port1 w1 port2 w2 evs etcd where "getFreePort en w = (Return port1, w1)"
      and "getFreePort en w1 = (Return port2, w2)"
      and "0 \<le> port1" and "port1 < port2" and "\<forall>e\<in>set evs. is_probe e"
      and "call_events w w' = evs @ [EvStartEtcd (startup_config en path port1 port2) (Inr etcd),
             EvSelect etcd readyTimeout True, EvWithCancel (length (contexts w))]"
      and "r = Return (Some \<lparr>Ctx = length (contexts w), Host = ''http://'' @ Sprintf_addr port2,
                 User = ''user'', Pass = ''pass'', InsecureSkipVerify = True\<rparr>,
               Some (\<lambda>v. Etcd_Close etcd (cancel (length (contexts w)) v)), None)"
      and "contexts w' = contexts w @ [False]"
  using assms
proof (cases rule: NewEmbeddedEtcdInstance_cases)
  case (panic1 msg)
  from getFreePort_post [OF panic1(1)] obtain evs1 where 1: "trace w' = trace w @ evs1"
    "contexts w' = contexts w" "\<forall>e\<in>set evs1. is_probe e"
    unfolding loop_post_def by blast
  from 1(1) have "call_events w w' = evs1" by (rule call_events_append)
  with 1(3) have "\<forall>e\<in>set (call_events w w'). is_probe e" by simp
  with panic1(2) show ?thesis using 1(2) by (rule panic)
next
  case (panic2 port1 w1 msg)
  from getFreePort_post [OF panic2(1)] obtain evs1 where 1: "trace w1 = trace w @ evs1"
    "contexts w1 = contexts w" "\<forall>e\<in>set evs1. is_probe e"
    unfolding loop_post_def by blast
  from getFreePort_post [OF panic2(2)] obtain evs2 where 2: "trace w' = trace w1 @ evs2"
    "contexts w' = contexts w1" "\<forall>e\<in>set evs2. is_probe e"
    unfolding loop_post_def by blast
  have "call_events w w' = evs1 @ evs2"
    using 1(1) 2(1) by (simp add: call_events_def)
  with 1(3) 2(3) have "\<forall>e\<in>set (call_events w w'). is_probe e" by auto
  moreover have "contexts w' = contexts w" using 1(2) 2(2) by simp
  ultimately show ?thesis using panic2(3) by (intro panic)
next
  case (launch_failed port1 w1 port2 w2 cfg err)
  from launch_failed(1,2) obtain evs where evs: "trace w2 = trace w @ evs"
    "\<forall>e\<in>set evs. is_probe e" "contexts w2 = contexts w" "0 \<le> port1" "port1 < port2"
    "port2 < 65535"
    by (rule two_ports)
  have "call_events w w' = evs @ [EvStartEtcd (startup_config en path port1 port2) (Inl err)]"
    by (rule call_events_append) (simp add: launch_failed(3,5) evs(1))
  moreover have "contexts w' = contexts w"
    by (simp add: launch_failed(5) evs(3))
  ultimately show ?thesis
    by (rule that(2) [OF launch_failed(1,2) evs(4,5,2) _ launch_failed(4)])
next
  case (timed_out port1 w1 port2 w2 cfg etcd)
  from timed_out(1,2) obtain evs where evs: "trace w2 = trace w @ evs"
    "\<forall>e\<in>set evs. is_probe e" "contexts w2 = contexts w" "0 \<le> port1" "port1 < port2"
    "port2 < 65535"
    by (rule two_ports)
  have "call_events w w' = evs @ [EvStartEtcd (startup_config en path port1 port2) (Inr etcd),
      EvSelect etcd readyTimeout False, EvEtcdClose etcd]"
    by (rule call_events_append) (simp add: timed_out(3,5) evs(1))
  moreover have "contexts w' = contexts w"
    by (simp add: timed_out(5) evs(3))
  ultimately show ?thesis
    by (rule that(3) [OF timed_out(1,2) evs(4,5,2) _ timed_out(4)])
next
  case (ready port1 w1 port2 w2 cfg etcd ctx)
  from ready(1,2) obtain evs where evs: "trace w2 = trace w @ evs"
    "\<forall>e\<in>set evs. is_probe e" "contexts w2 = contexts w" "0 \<le> port1" "port1 < port2"
    "port2 < 65535"
    by (rule two_ports)
  have ctx: "ctx = length (contexts w)"
    by (simp add: ready(4) evs(3))
  have "call_events w w' = evs @ [EvStartEtcd (startup_config en path port1 port2) (Inr etcd),
      EvSelect etcd readyTimeout True, EvWithCancel (length (contexts w))]"
    by (rule call_events_append) (simp add: ready(3,6) ctx evs(1))
  moreover have "r = Return (Some \<lparr>Ctx = length (contexts w), Host = ''http://'' @ Sprintf_addr port2,
                 User = ''user'', Pass = ''pass'', InsecureSkipVerify = True\<rparr>,
               Some (\<lambda>v. Etcd_Close etcd (cancel (length (contexts w)) v)), None)"
    using ready(5) by (simp only: ctx)
  moreover have "contexts w' = contexts w @ [False]"
    by (simp add: ready(6) evs(3))
  ultimately show ?thesis
    by (rule that(4) [OF ready(1,2) evs(4,5,2)])
qed

lemma startup_config_fields [simp]:
  "Dir (startup_config en path port1 port2) = path"
  "MaxTxnOps (startup_config en path port1 port2) = 8192"
  "MaxRequestBytes (startup_config en path port1 port2) = 16777216"
  "LCUrls (startup_config en path port1 port2) = [url_zero\<lparr>url.Host := Sprintf_addr port1\<rparr>]"
  "LPUrls (startup_config en path port1 port2) = [url_zero\<lparr>url.Host := Sprintf_addr port2\<rparr>]"
  by (simp_all add: startup_config_def)

text \<open>The example calls, evaluated.\<close>

lemma getFreePort_free:
  assumes "\<And>h a. net_Listen en h a" and "\<And>h a. Listener_Close en h a"
    and "lastPort w + 1 < 65535"
  shows "getFreePort en w =
     (Return (uint (lastPort w + 1)),
      \<lparr>lastPort = lastPort w + 1, contexts = contexts w,
         trace = trace w @ [EvListen (Sprintf_addr (uint (lastPort w + 1))) True,
                            EvListenerClose (Sprintf_addr (uint (lastPort w + 1))) True]\<rparr>)"
  using assms by (simp add: getFreePort_entry getFreePort_loop_found [OF _ refl] log_def)

lemma first_two_ports:
  assumes "\<And>h a. net_Listen en h a" and "\<And>h a. Listener_Close en h a"
  shows "getFreePort en init_world =
      (Return 2380, \<lparr>lastPort = 2380, contexts = [], trace = take 2 example_probes\<rparr>)"
    and "getFreePort en \<lparr>lastPort = 2380, contexts = [], trace = take 2 example_probes\<rparr> =
      (Return 2381, \<lparr>lastPort = 2381, contexts = [], trace = example_probes\<rparr>)"
  by (simp_all add: getFreePort_free [OF assms] init_world_def defaultEtcdPort_def
      Sprintf_addr_examples example_probes_def)

lemma NewEmbeddedEtcdInstance_all_free:
  "NewEmbeddedEtcdInstance all_free ''/tmp/etcd'' init_world =
     (Return (Some \<lparr>Ctx = 0, Host = ''http://127.0.0.1:2381'', User = ''user'', Pass = ''pass'',
                     InsecureSkipVerify = True\<rparr>,
              Some (\<lambda>v. Etcd_Close 0 (cancel 0 v)), None),
      world_ready)"
proof -
  have free: "\<And>h a. net_Listen all_free h a" "\<And>h a. Listener_Close all_free h a"
    by (simp_all add: all_free_def)
  have cfg: "(embed_NewConfig all_free)\<lparr>Dir := ''/tmp/etcd'', MaxTxnOps := 8192,
      MaxRequestBytes := 16384 * 1024,
      LCUrls := [url_zero\<lparr>url.Host := ''127.0.0.1:2380''\<rparr>],
      LPUrls := [url_zero\<lparr>url.Host := ''127.0.0.1:2381''\<rparr>]\<rparr> = example_config"
    by (simp add: example_config_def all_free_def)
  show ?thesis
    by (simp add: NewEmbeddedEtcdInstance_def first_two_ports [OF free] Sprintf_addr_examples cfg)
      (simp add: StartEtcd_def select_ReadyNotify_def WithCancel_def Let_def log_def
        world_ready_def readyTimeout_def Second_def all_free_def example_config_def)
qed

lemma NewEmbeddedEtcdInstance_never_ready:
  "NewEmbeddedEtcdInstance never_ready ''/tmp/etcd'' init_world =
     (Return (None, None, Some (Error ''etcd failed to start after: 10s'')), world_timed_out)"
proof -
  have free: "\<And>h a. net_Listen never_ready h a" "\<And>h a. Listener_Close never_ready h a"
    by (simp_all add: never_ready_def all_free_def)
  show ?thesis
    by (simp add: NewEmbeddedEtcdInstance_def first_two_ports [OF free] Sprintf_addr_examples)
      (simp add: StartEtcd_def select_ReadyNotify_def Etcd_Close_def Errorf_timeout_def Let_def
        log_def world_timed_out_def readyTimeout_def Second_def never_ready_def all_free_def
        example_config_def)
qed

lemma NewEmbeddedEtcdInstance_launch_fails:
  "NewEmbeddedEtcdInstance launch_fails ''/tmp/etcd'' init_world =
     (Return (None, None, Some (Error ''member has already been bootstrapped'')),
      world_launch_failed)"
proof -
  have free: "\<And>h a. net_Listen launch_fails h a" "\<And>h a. Listener_Close launch_fails h a"
    by (simp_all add: launch_fails_def all_free_def)
  show ?thesis
    by (simp add: NewEmbeddedEtcdInstance_def first_two_ports [OF free] Sprintf_addr_examples)
      (simp add: StartEtcd_def Let_def log_def world_launch_failed_def launch_fails_def
        all_free_def example_config_def)
qed

lemma call_events_init [simp]: "call_events init_world w = trace w"
  by (simp add: call_events_def init_world_def)

lemma is_start_example_probes [simp]: "filter is_start example_probes = []"
  by (simp add: example_probes_def)



text \<open>
  C1. When \<open>NewEmbeddedEtcdInstance\<close> returns a descriptor, the call has started etcd
  once, with one client and one peer listen URL; the descriptor's host is "http://"
  followed by the host of that peer URL and differs from "http://" followed by the host of
  the client URL, its user is "user", its password is "pass" and InsecureSkipVerify is
  set; the error is nil and the cleanup function is not.
\<close>

theorem NewEmbeddedEtcdInstance_descriptor:
  assumes "NewEmbeddedEtcdInstance en path w = (Return (Some connConfig, cleanup, err), w')"
  shows "\<exists>cfg etcd client peer.
           filter is_start (call_events w w') = [EvStartEtcd cfg (Inr etcd)] \<and>
           LCUrls cfg = [client] \<and> LPUrls cfg = [peer] \<and>
           BackendConfig.Host connConfig = ''http://'' @ url.Host peer \<and>
           BackendConfig.Host connConfig \<noteq> ''http://'' @ url.Host client \<and>
           User connConfig = ''user'' \<and> Pass connConfig = ''pass'' \<and>
           InsecureSkipVerify connConfig \<and> err = None \<and> cleanup \<noteq> None"
  using assms
proof (cases rule: NewEmbeddedEtcdInstance_events)
  case (ready port1 w1 port2 w2 evs etcd)
  let ?cfg = "startup_config en path port1 port2"
  have "filter is_start (call_events w w') = [EvStartEtcd ?cfg (Inr etcd)]"
    using ready(5) by (simp add: ready(6) filter_is_start_probes)
  moreover from ready(3,4) have "Sprintf_addr port2 \<noteq> Sprintf_addr port1"
    using Sprintf_addr_inj [of port2 port1] by auto
  ultimately show ?thesis using ready(7)
    by (intro exI [of _ ?cfg] exI [of _ etcd] exI [of _ "url_zero\<lparr>url.Host := Sprintf_addr port1\<rparr>"]
        exI [of _ "url_zero\<lparr>url.Host := Sprintf_addr port2\<rparr>"]) simp
qed simp_all

theorem NewEmbeddedEtcdInstance_descriptor_witness:
  "NewEmbeddedEtcdInstance all_free ''/tmp/etcd'' init_world =
     (Return (Some \<lparr>Ctx = 0, Host = ''http://127.0.0.1:2381'', User = ''user'', Pass = ''pass'',
                     InsecureSkipVerify = True\<rparr>,
              Some (\<lambda>v. Etcd_Close 0 (cancel 0 v)), None),
      world_ready) \<and>
   map url.Host (LPUrls example_config) = [''127.0.0.1:2381''] \<and>
   map url.Host (LCUrls example_config) = [''127.0.0.1:2380'']"
  using NewEmbeddedEtcdInstance_descriptor [OF NewEmbeddedEtcdInstance_all_free]
    NewEmbeddedEtcdInstance_all_free
  by (simp add: example_config_def)

text \<open>
  The two ports of a call that no other goroutine interleaves with. A call of
  \<open>NewEmbeddedEtcdInstance\<close> that does not panic has called
  \<open>getFreePort\<close> twice, the second time in the world the first call left; the two
  ports returned are different, the first is the port of the client listen URL and the
  second the port of the peer listen URL, and the two addresses are different strings.
\<close>

theorem NewEmbeddedEtcdInstance_two_ports:
  assumes "NewEmbeddedEtcdInstance en path w = (Return res, w')"
  shows "\<exists>port1 w1 port2 w2 cfg out.
           getFreePort en w = (Return port1, w1) \<and> getFreePort en w1 = (Return port2, w2) \<and>
           port1 \<noteq> port2 \<and>
           filter is_start (call_events w w') = [EvStartEtcd cfg out] \<and>
           map url.Host (LCUrls cfg) = [''127.0.0.1:'' @ fmt_d port1] \<and>
           map url.Host (LPUrls cfg) = [''127.0.0.1:'' @ fmt_d port2] \<and>
           ''127.0.0.1:'' @ fmt_d port1 \<noteq> ''127.0.0.1:'' @ fmt_d port2"
  using assms
proof (cases rule: NewEmbeddedEtcdInstance_events)
  case (panic msg)
  then show ?thesis by simp
next
  case (launch_failed port1 w1 port2 w2 evs err)
  let ?cfg = "startup_config en path port1 port2"
  have "filter is_start (call_events w w') = [EvStartEtcd ?cfg (Inl err)]"
    using launch_failed(5) by (simp add: launch_failed(6) filter_is_start_probes)
  moreover from launch_failed(3,4) have "Sprintf_addr port1 \<noteq> Sprintf_addr port2"
    using Sprintf_addr_inj [of port1 port2] by auto
  ultimately show ?thesis using launch_failed(1,2,4)
    by (intro exI [of _ port1] exI [of _ w1] exI [of _ port2] exI [of _ w2] exI [of _ ?cfg] exI)
      (simp add: Sprintf_addr_def)
next
  case (timed_out port1 w1 port2 w2 evs etcd)
  let ?cfg = "startup_config en path port1 port2"
  have "filter is_start (call_events w w') = [EvStartEtcd ?cfg (Inr etcd)]"
    using timed_out(5) by (simp add: timed_out(6) filter_is_start_probes)
  moreover from timed_out(3,4) have "Sprintf_addr port1 \<noteq> Sprintf_addr port2"
    using Sprintf_addr_inj [of port1 port2] by auto
  ultimately show ?thesis using timed_out(1,2,4)
    by (intro exI [of _ port1] exI [of _ w1] exI [of _ port2] exI [of _ w2] exI [of _ ?cfg] exI)
      (simp add: Sprintf_addr_def)
next
  case (ready port1 w1 port2 w2 evs etcd)
  let ?cfg = "startup_config en path port1 port2"
  have "filter is_start (call_events w w') = [EvStartEtcd ?cfg (Inr etcd)]"
    using ready(5) by (simp add: ready(6) filter_is_start_probes)
  moreover from ready(3,4) have "Sprintf_addr port1 \<noteq> Sprintf_addr port2"
    using Sprintf_addr_inj [of port1 port2] by auto
  ultimately show ?thesis using ready(1,2,4)
    by (intro exI [of _ port1] exI [of _ w1] exI [of _ port2] exI [of _ w2] exI [of _ ?cfg] exI)
      (simp add: Sprintf_addr_def)
qed

theorem NewEmbeddedEtcdInstance_two_ports_witness:
  "NewEmbeddedEtcdInstance never_ready ''/tmp/etcd'' init_world =
     (Return (None, None, Some (Error ''etcd failed to start after: 10s'')), world_timed_out) \<and>
   getFreePort never_ready init_world =
     (Return 2380, \<lparr>lastPort = 2380, contexts = [], trace = take 2 example_probes\<rparr>) \<and>
   getFreePort never_ready \<lparr>lastPort = 2380, contexts = [], trace = take 2 example_probes\<rparr> =
     (Return 2381, \<lparr>lastPort = 2381, contexts = [], trace = example_probes\<rparr>) \<and>
   map url.Host (LCUrls example_config) = [''127.0.0.1:2380''] \<and>
   map url.Host (LPUrls example_config) = [''127.0.0.1:2381'']"
proof -
  have free: "\<And>h a. net_Listen never_ready h a" "\<And>h a. Listener_Close never_ready h a"
    by (simp_all add: never_ready_def all_free_def)
  from NewEmbeddedEtcdInstance_two_ports [OF NewEmbeddedEtcdInstance_never_ready]
    NewEmbeddedEtcdInstance_never_ready first_two_ports [OF free]
  show ?thesis by (simp add: example_config_def)
qed



text \<open>
  C5. When \<open>embed.StartEtcd\<close> returns an error in a call of
  \<open>NewEmbeddedEtcdInstance\<close>, the call returns that error, with a nil descriptor and a
  nil cleanup function; the failed start is the last thing the call does, after the probes
  of its two ports, so it has no instance and creates no context.
\<close>

theorem NewEmbeddedEtcdInstance_launch_failure:
  assumes "NewEmbeddedEtcdInstance en path w = (r, w')"
    and "EvStartEtcd cfg (Inl err) \<in> set (call_events w w')"
  shows "r = Return (None, None, Some err) \<and>
         (\<exists>evs. call_events w w' = evs @ [EvStartEtcd cfg (Inl err)] \<and>
            (\<forall>e\<in>set evs. is_probe e)) \<and>
         contexts w' = contexts w"
  using assms(1)
proof (cases rule: NewEmbeddedEtcdInstance_events)
  case (panic msg)
  with assms(2) show ?thesis by (auto dest: bspec)
next
  case (launch_failed port1 w1 port2 w2 evs err')
  from assms(2) launch_failed(5) have "err' = err" and "startup_config en path port1 port2 = cfg"
    by (auto simp: launch_failed(6) dest: bspec)
  with launch_failed(5,6,7,8) show ?thesis by auto
next
  case (timed_out port1 w1 port2 w2 evs etcd)
  with assms(2) show ?thesis by (auto dest: bspec)
next
  case (ready port1 w1 port2 w2 evs etcd)
  with assms(2) show ?thesis by (auto dest: bspec)
qed

theorem NewEmbeddedEtcdInstance_launch_failure_witness:
  "NewEmbeddedEtcdInstance launch_fails ''/tmp/etcd'' init_world =
     (Return (None, None, Some (Error ''member has already been bootstrapped'')),
      world_launch_failed) \<and>
   call_events init_world world_launch_failed =
     example_probes @
       [EvStartEtcd example_config (Inl (Error ''member has already been bootstrapped''))] \<and>
   contexts world_launch_failed = contexts init_world"
proof -
  have "EvStartEtcd example_config (Inl (Error ''member has already been bootstrapped''))
      \<in> set (call_events init_world world_launch_failed)"
    by (simp add: world_launch_failed_def)
  from NewEmbeddedEtcdInstance_launch_failure [OF NewEmbeddedEtcdInstance_launch_fails this]
  have "contexts world_launch_failed = contexts init_world" by simp
  moreover have "call_events init_world world_launch_failed =
     example_probes @
       [EvStartEtcd example_config (Inl (Error ''member has already been bootstrapped''))]"
    by (simp add: world_launch_failed_def)
  ultimately show ?thesis
    using NewEmbeddedEtcdInstance_launch_fails by simp
qed

lemma contexts_cancel [simp]: "contexts (cancel ctx w) = (contexts w)[ctx := True]"
  by (simp add: cancel_def)

lemma contexts_Etcd_Close [simp]: "contexts (Etcd_Close etcd w) = contexts w"
  by (simp add: Etcd_Close_def)

lemma call_events_cleanup [simp]:
  "call_events v (Etcd_Close etcd (cancel ctx v)) = [EvCancel ctx, EvEtcdClose etcd]"
  by (simp add: call_events_def Etcd_Close_def cancel_def log_def)

lemma getFreePort_contexts: "getFreePort en w = (r, w') \<Longrightarrow> contexts w' = contexts w"
  by (drule getFreePort_post) (auto simp: loop_post_def)

lemma NewEmbeddedEtcdInstance_contexts:
  assumes "NewEmbeddedEtcdInstance en path w = (r, w')" and "i < length (contexts w)"
  shows "contexts w' ! i = contexts w ! i"
  using assms(1)
proof (cases rule: NewEmbeddedEtcdInstance_events)
  case (ready port1 w1 port2 w2 evs etcd)
  with assms(2) show ?thesis by (simp add: nth_append)
qed simp_all

lemma cleanup_contexts:
  assumes "NewEmbeddedEtcdInstance en path w = (Return (c, Some f, e), w')"
    and "i \<noteq> length (contexts w)"
  shows "contexts (f v) ! i = contexts v ! i"
  using assms(1)
proof (cases rule: NewEmbeddedEtcdInstance_events)
  case (ready port1 w1 port2 w2 evs etcd)
  then have "f = (\<lambda>v. Etcd_Close etcd (cancel (length (contexts w)) v))" by simp
  with assms(2) show ?thesis by simp
qed simp_all

text \<open>
  C7. When \<open>NewEmbeddedEtcdInstance\<close> returns a descriptor and a cleanup function, the
  descriptor's context is a new one, made by this call and not cancelled when the call
  returns. The cleanup function, whenever it is called, cancels that context and then
  closes the instance that the call started, and does nothing else. No other call of the
  file cancels the context: \<open>getFreePort\<close>, \<open>NewEmbeddedEtcdInstance\<close> and the cleanup
  function of any call made in a world with another number of contexts leave it as it is.
\<close>

theorem NewEmbeddedEtcdInstance_cleanup:
  assumes "NewEmbeddedEtcdInstance en path w = (Return (Some connConfig, Some cleanup, err), w')"
  shows "Ctx connConfig = length (contexts w) \<and> contexts w' = contexts w @ [False] \<and>
         (\<exists>cfg etcd. filter is_start (call_events w w') = [EvStartEtcd cfg (Inr etcd)] \<and>
            (\<forall>v. call_events v (cleanup v) = [EvCancel (Ctx connConfig), EvEtcdClose etcd] \<and>
                 contexts (cleanup v) = (contexts v)[Ctx connConfig := True] \<and>
                 lastPort (cleanup v) = lastPort v)) \<and>
         (\<forall>en2 v r2 v2. getFreePort en2 v = (r2, v2) \<longrightarrow>
            contexts v2 ! Ctx connConfig = contexts v ! Ctx connConfig) \<and>
         (\<forall>en2 path2 v r2 v2. NewEmbeddedEtcdInstance en2 path2 v = (r2, v2) \<longrightarrow>
            Ctx connConfig < length (contexts v) \<longrightarrow>
            contexts v2 ! Ctx connConfig = contexts v ! Ctx connConfig) \<and>
         (\<forall>en2 path2 v c2 f2 e2 v2 u.
            NewEmbeddedEtcdInstance en2 path2 v = (Return (c2, Some f2, e2), v2) \<longrightarrow>
            length (contexts v) \<noteq> Ctx connConfig \<longrightarrow>
            contexts (f2 u) ! Ctx connConfig = contexts u ! Ctx connConfig)"
proof (intro conjI allI impI)
  from assms show "Ctx connConfig = length (contexts w)"
    by (cases rule: NewEmbeddedEtcdInstance_events) auto
  from assms show "contexts w' = contexts w @ [False]"
    by (cases rule: NewEmbeddedEtcdInstance_events) auto
  from assms show "\<exists>cfg etcd. filter is_start (call_events w w') = [EvStartEtcd cfg (Inr etcd)] \<and>
      (\<forall>v. call_events v (cleanup v) = [EvCancel (Ctx connConfig), EvEtcdClose etcd] \<and>
           contexts (cleanup v) = (contexts v)[Ctx connConfig := True] \<and>
           lastPort (cleanup v) = lastPort v)"
  proof (cases rule: NewEmbeddedEtcdInstance_events)
    case (ready port1 w1 port2 w2 evs etcd)
    let ?cfg = "startup_config en path port1 port2"
    have "filter is_start (call_events w w') = [EvStartEtcd ?cfg (Inr etcd)]"
      using ready(5) by (simp add: ready(6) filter_is_start_probes)
    moreover from ready(7) have "cleanup = (\<lambda>v. Etcd_Close etcd (cancel (length (contexts w)) v))"
      and "Ctx connConfig = length (contexts w)" by auto
    ultimately show ?thesis
      by (intro exI [of _ ?cfg] exI [of _ etcd]) simp
  qed simp_all
next
  fix en2 v r2 v2
  assume "getFreePort en2 v = (r2, v2)"
  then show "contexts v2 ! Ctx connConfig = contexts v ! Ctx connConfig"
    by (simp add: getFreePort_contexts)
next
  fix en2 path2 v r2 v2
  assume "NewEmbeddedEtcdInstance en2 path2 v = (r2, v2)" and "Ctx connConfig < length (contexts v)"
  then show "contexts v2 ! Ctx connConfig = contexts v ! Ctx connConfig"
    by (rule NewEmbeddedEtcdInstance_contexts)
next
  fix en2 path2 v c2 f2 e2 v2 u
  assume "NewEmbeddedEtcdInstance en2 path2 v = (Return (c2, Some f2, e2), v2)"
    and "length (contexts v) \<noteq> Ctx connConfig"
  then show "contexts (f2 u) ! Ctx connConfig = contexts u ! Ctx connConfig"
    by (intro cleanup_contexts) auto
qed

theorem NewEmbeddedEtcdInstance_cleanup_witness:
  "NewEmbeddedEtcdInstance all_free ''/tmp/etcd'' init_world =
     (Return (Some \<lparr>Ctx = 0, Host = ''http://127.0.0.1:2381'', User = ''user'', Pass = ''pass'',
                     InsecureSkipVerify = True\<rparr>,
              Some (\<lambda>v. Etcd_Close 0 (cancel 0 v)), None),
      world_ready) \<and>
   contexts init_world = [] \<and> contexts world_ready = [False] \<and>
   contexts (Etcd_Close 0 (cancel 0 world_ready)) = [True] \<and>
   call_events world_ready (Etcd_Close 0 (cancel 0 world_ready)) = [EvCancel 0, EvEtcdClose 0] \<and>
   filter is_start (call_events init_world world_ready) = [EvStartEtcd example_config (Inr 0)]"
proof -
  from NewEmbeddedEtcdInstance_cleanup [OF NewEmbeddedEtcdInstance_all_free]
  have "contexts world_ready = contexts init_world @ [False]"
    and "contexts (Etcd_Close 0 (cancel 0 world_ready)) = (contexts world_ready)[0 := True]"
    by simp_all
  moreover have "contexts init_world = []"
    by (simp add: init_world_def)
  moreover have "filter is_start (call_events init_world world_ready) =
      [EvStartEtcd example_config (Inr 0)]"
    by (simp add: world_ready_def)
  ultimately show ?thesis
    using NewEmbeddedEtcdInstance_all_free by simp
qed

section \<open>Concurrent calls\<close>

text \<open>The invariant holds when the calls start and every step preserves it.\<close>

lemma length_filter_update:
  "i < length xs \<Longrightarrow>
   length (filter P (xs[i := y])) + (if P (xs ! i) then 1 else 0) =
   length (filter P xs) + (if P y then 1 else 0)"
proof (induction xs arbitrary: i)
  case Nil
  then show ?case by simp
next
  case (Cons x xs)
  show ?case
  proof (cases i)
    case 0
    then show ?thesis by simp
  next
    case (Suc k)
    with Cons.prems have "k < length xs" by simp
    from Cons.IH [OF this] Suc show ?thesis by simp
  qed
qed

lemma length_step [simp]: "length (goroutines (step a s)) = length (goroutines s)"
  by (cases a) (simp add: step_def advance_def Let_def split: goroutine.splits)

lemma length_run [simp]: "length (goroutines (run sched s)) = length (goroutines s)"
  unfolding run_def by (induction sched arbitrary: s) simp_all

lemma ports_inv_calls: "ports_inv c (calls c n)"
  by (simp add: ports_inv_def calls_def)

lemma ports_inv_update:
  assumes inv: "ports_inv c s" and i: "i < length (goroutines s)"
    and sp: "spent g = spent (goroutines s ! i)"
    and held: "held_port g = held_port (goroutines s ! i) \<or> held_port g = None"
    and ret: "\<And>p. g = Returned p \<Longrightarrow> \<exists>port :: uint32. port < 65535 \<and> p = uint port"
  shows "ports_inv c (s\<lparr>goroutines := (goroutines s)[i := g]\<rparr>)"
proof -
  let ?gs = "goroutines s"
  let ?gs' = "?gs[i := g]"
  have count: "length (filter spent ?gs') = length (filter spent ?gs)"
    using length_filter_update [OF i, of spent g] sp by simp
  have nth: "?gs' ! k = (if k = i then g else ?gs ! k)" if "k < length ?gs" for k
    using that by (simp add: nth_list_update)
  have sub: "held_port (?gs ! k) = Some port" if "k < length ?gs" "held_port (?gs' ! k) = Some port"
    for k port
    using that held nth [OF that(1)] by (cases "k = i") auto
  from inv have 1: "unat (cursor s) \<le> max (unat c) 65534 + length (filter spent ?gs)"
    and 2: "c \<le> cursor s"
    and 3: "\<And>k port. k < length ?gs \<Longrightarrow> held_port (?gs ! k) = Some port \<Longrightarrow>
          c < port \<and> port \<le> cursor s"
    and 4: "\<And>k l. k < length ?gs \<Longrightarrow> l < length ?gs \<Longrightarrow> k \<noteq> l \<Longrightarrow>
          held_port (?gs ! k) \<noteq> None \<Longrightarrow> held_port (?gs ! k) \<noteq> held_port (?gs ! l)"
    and 5: "\<And>k p. k < length ?gs \<Longrightarrow> ?gs ! k = Returned p \<Longrightarrow>
          \<exists>port :: uint32. port < 65535 \<and> p = uint port"
    unfolding ports_inv_def by blast+
  have returned: "\<exists>port :: uint32. port < 65535 \<and> p = uint port"
    if "k < length ?gs" "?gs' ! k = Returned p" for k p
    using that ret 5 [OF that(1)] nth [OF that(1)] by (cases "k = i") auto
  have distinct': "held_port (?gs' ! k) \<noteq> held_port (?gs' ! l)"
    if "k < length ?gs" "l < length ?gs" "k \<noteq> l" "held_port (?gs' ! k) \<noteq> None" for k l
  proof
    assume eq: "held_port (?gs' ! k) = held_port (?gs' ! l)"
    from that(4) obtain port where k: "held_port (?gs' ! k) = Some port" by auto
    with eq have l: "held_port (?gs' ! l) = Some port" by simp
    from sub [OF that(1) k] sub [OF that(2) l] 4 [OF that(1,2,3)] show False by simp
  qed
  show ?thesis
    unfolding ports_inv_def
    using 1 2 3 sub distinct' returned by (simp add: count)
qed

lemma ports_inv_advance:
  assumes inv: "ports_inv c s" and i: "i < length (goroutines s)"
    and live: "\<not> spent (goroutines s ! i)"
    and room: "max (unat c) 65534 + length (goroutines s) < 2 ^ 32"
  shows "ports_inv c (advance i s)"
proof -
  let ?gs = "goroutines s"
  let ?n = "cursor s + 1"
  let ?gs' = "?gs[i := Probing ?n]"
  from inv have 1: "unat (cursor s) \<le> max (unat c) 65534 + length (filter spent ?gs)"
    and 2: "c \<le> cursor s"
    and 3: "\<And>k port. k < length ?gs \<Longrightarrow> held_port (?gs ! k) = Some port \<Longrightarrow>
          c < port \<and> port \<le> cursor s"
    and 4: "\<And>k l. k < length ?gs \<Longrightarrow> l < length ?gs \<Longrightarrow> k \<noteq> l \<Longrightarrow>
          held_port (?gs ! k) \<noteq> None \<Longrightarrow> held_port (?gs ! k) \<noteq> held_port (?gs ! l)"
    and 5: "\<And>k p. k < length ?gs \<Longrightarrow> ?gs ! k = Returned p \<Longrightarrow>
          \<exists>port :: uint32. port < 65535 \<and> p = uint port"
    unfolding ports_inv_def by blast+
  from i live have "length (filter spent ?gs) < length ?gs"
    by (intro length_filter_less [of "?gs ! i"]) simp_all
  with 1 room have "unat (cursor s) + 1 < 2 ^ 32" by simp
  then have n: "unat ?n = unat (cursor s) + 1"
    by (simp add: unat_word_ariths)
  then have up: "cursor s < ?n"
    by (simp add: word_less_nat_alt)
  have count: "length (filter spent ?gs') = length (filter spent ?gs) + (if ?n < 65535 then 0 else 1)"
    using length_filter_update [OF i, of spent "Probing ?n"] live by simp
  have a: "unat ?n \<le> max (unat c) 65534 + length (filter spent ?gs')"
  proof (cases "?n < 65535")
    case True
    then have "unat ?n \<le> 65534" by (simp add: word_less_nat_alt)
    then show ?thesis by simp
  next
    case False
    with 1 n count show ?thesis by simp
  qed
  have b: "c \<le> ?n" using 2 up by (simp add: word_le_nat_alt word_less_nat_alt)
  have nth: "?gs' ! k = (if k = i then Probing ?n else ?gs ! k)" if "k < length ?gs" for k
    using that by (simp add: nth_list_update)
  have c: "c < port \<and> port \<le> ?n" if "k < length ?gs" "held_port (?gs' ! k) = Some port" for k port
  proof (cases "k = i")
    case True
    with that nth [OF that(1)] have "port = ?n" by simp
    with 2 up show ?thesis by (simp add: word_le_nat_alt word_less_nat_alt)
  next
    case False
    with that nth [OF that(1)] have "held_port (?gs ! k) = Some port" by simp
    from 3 [OF that(1) this] up show ?thesis by (simp add: word_le_nat_alt word_less_nat_alt)
  qed
  have old: "port \<noteq> ?n" if "k < length ?gs" "held_port (?gs ! k) = Some port" for k port
    using 3 [OF that] up by (auto simp: word_le_nat_alt word_less_nat_alt)
  have d: "held_port (?gs' ! k) \<noteq> held_port (?gs' ! l)"
    if "k < length ?gs" "l < length ?gs" "k \<noteq> l" "held_port (?gs' ! k) \<noteq> None" for k l
  proof (cases "k = i")
    case True
    with that(3) have "l \<noteq> i" by simp
    with True nth [OF that(1)] nth [OF that(2)] old [OF that(2)] show ?thesis
      by (cases "held_port (?gs ! l)") auto
  next
    case ki: False
    show ?thesis
    proof (cases "l = i")
      case True
      with ki nth [OF that(1)] nth [OF that(2)] old [OF that(1)] that(4) show ?thesis
        by (cases "held_port (?gs ! k)") auto
    next
      case False
      with ki nth [OF that(1)] nth [OF that(2)] 4 [OF that(1,2,3)] that(4) show ?thesis
        by simp
    qed
  qed
  have e: "\<exists>port :: uint32. port < 65535 \<and> p = uint port"
    if "k < length ?gs" "?gs' ! k = Returned p" for k p
    using that 5 [OF that(1)] nth [OF that(1)] by (cases "k = i") auto
  show ?thesis
    unfolding ports_inv_def advance_def Let_def
    using a b c d e by simp
qed

lemma ports_inv_step:
  assumes inv: "ports_inv c s" and room: "max (unat c) 65534 + length (goroutines s) < 2 ^ 32"
  shows "ports_inv c (step a s)"
proof (cases a)
  case (Pair i ok)
  show ?thesis
  proof (cases "i < length (goroutines s)")
    case False
    with Pair inv show ?thesis by (simp add: step_def)
  next
    case i: True
    show ?thesis
    proof (cases "goroutines s ! i")
      case Calling
      with ports_inv_advance [OF inv i _ room] Pair i show ?thesis
        by (simp add: step_def)
    next
      case (Probing port)
      show ?thesis
      proof (cases "port < 65535")
        case below: True
        show ?thesis
        proof (cases ok)
          case True
          have "ports_inv c (s\<lparr>goroutines := (goroutines s)[i := Returned (uint port)]\<rparr>)"
            using Probing below by (intro ports_inv_update [OF inv i]) auto
          with Pair i Probing below True show ?thesis
            by (simp add: step_def)
        next
          case False
          with ports_inv_advance [OF inv i _ room] Pair i Probing below show ?thesis
            by (simp add: step_def)
        qed
      next
        case False
        have "ports_inv c (s\<lparr>goroutines :=
            (goroutines s)[i := Panicked ''no ports available for listening'']\<rparr>)"
          using Probing False by (intro ports_inv_update [OF inv i]) auto
        with Pair i Probing False show ?thesis
          by (simp add: step_def)
      qed
    next
      case (Returned p)
      with Pair i inv show ?thesis by (simp add: step_def)
    next
      case (Panicked msg)
      with Pair i inv show ?thesis by (simp add: step_def)
    qed
  qed
qed

lemma ports_inv_run:
  "ports_inv c s \<Longrightarrow> max (unat c) 65534 + length (goroutines s) < 2 ^ 32 \<Longrightarrow>
   ports_inv c (run sched s)"
proof (induction sched arbitrary: s)
  case Nil
  then show ?case by (simp add: run_def)
next
  case (Cons a sched)
  from Cons.prems have "ports_inv c (step a s)" by (rule ports_inv_step)
  moreover from Cons.prems(2) have "max (unat c) 65534 + length (goroutines (step a s)) < 2 ^ 32"
    by simp
  ultimately have "ports_inv c (run sched (step a s))" by (rule Cons.IH)
  then show ?case by (simp add: run_def)
qed

text \<open>Distinct ports at distinct goroutines are a duplicate-free list of returned ports.\<close>

lemma set_map_filter: "set (List.map_filter f xs) = {y. \<exists>i<length xs. f (xs ! i) = Some y}"
  by (induction xs) (auto simp: less_Suc_eq_0_disj split: option.splits)

lemma distinct_map_filter_iff:
  "distinct (List.map_filter f xs) \<longleftrightarrow>
   (\<forall>i<length xs. \<forall>j<length xs. i < j \<longrightarrow> f (xs ! i) \<noteq> None \<longrightarrow> f (xs ! i) \<noteq> f (xs ! j))"
proof (induction xs)
  case Nil
  show ?case by simp
next
  case (Cons x xs)
  have split: "(\<forall>i<length (x # xs). \<forall>j<length (x # xs). i < j \<longrightarrow> f ((x # xs) ! i) \<noteq> None \<longrightarrow>
        f ((x # xs) ! i) \<noteq> f ((x # xs) ! j)) \<longleftrightarrow>
      (f x \<noteq> None \<longrightarrow> (\<forall>j<length xs. f x \<noteq> f (xs ! j))) \<and>
      (\<forall>i<length xs. \<forall>j<length xs. i < j \<longrightarrow> f (xs ! i) \<noteq> None \<longrightarrow> f (xs ! i) \<noteq> f (xs ! j))"
    (is "?L \<longleftrightarrow> ?H \<and> ?T")
  proof
    assume l: ?L
    have ?H
    proof (intro impI allI)
      fix j assume "f x \<noteq> None" "j < length xs"
      with l [rule_format, of 0 "Suc j"] show "f x \<noteq> f (xs ! j)" by simp
    qed
    moreover have ?T
    proof (intro impI allI)
      fix i j assume "i < length xs" "j < length xs" "i < j" "f (xs ! i) \<noteq> None"
      with l [rule_format, of "Suc i" "Suc j"] show "f (xs ! i) \<noteq> f (xs ! j)" by simp
    qed
    ultimately show "?H \<and> ?T" ..
  next
    assume r: "?H \<and> ?T"
    show ?L
    proof (intro impI allI)
      fix i j
      assume a: "i < length (x # xs)" "j < length (x # xs)" "i < j" "f ((x # xs) ! i) \<noteq> None"
      from a(3) obtain j' where j: "j = Suc j'" by (cases j) auto
      show "f ((x # xs) ! i) \<noteq> f ((x # xs) ! j)"
      proof (cases i)
        case 0
        with a j r show ?thesis by simp
      next
        case (Suc i')
        with a j r show ?thesis by simp
      qed
    qed
  qed
  show ?case
    unfolding split using Cons.IH
    by (cases "f x") (auto simp: set_map_filter)
qed

lemma distinct_returned_ports:
  assumes "ports_inv c s"
  shows "distinct (returned_ports s)"
  unfolding returned_ports_def distinct_map_filter_iff
proof (intro allI impI)
  fix i j
  assume a: "i < length (goroutines s)" "j < length (goroutines s)" "i < j"
    "returned_port (goroutines s ! i) \<noteq> None"
  then obtain p where p: "goroutines s ! i = Returned p"
    by (cases "goroutines s ! i") auto
  show "returned_port (goroutines s ! i) \<noteq> returned_port (goroutines s ! j)"
  proof
    assume "returned_port (goroutines s ! i) = returned_port (goroutines s ! j)"
    with p have "goroutines s ! j = Returned p"
      by (cases "goroutines s ! j") auto
    with p have "held_port (goroutines s ! i) = held_port (goroutines s ! j)"
      and "held_port (goroutines s ! i) \<noteq> None" by simp_all
    moreover from assms a(1,2,3) have "held_port (goroutines s ! i) \<noteq> None \<longrightarrow>
        held_port (goroutines s ! i) \<noteq> held_port (goroutines s ! j)"
      unfolding ports_inv_def by auto
    ultimately show False by simp
  qed
qed

text \<open>
  Concurrent calls before the cursor can wrap around. Goroutines that call \<open>getFreePort\<close> concurrently, in any
  interleaving of their steps and with any outcome of their probes, return pairwise
  distinct ports, as long as there are too few of them for the 32-bit cursor to wrap
  around: with the cursor at \<open>c\<close> when they start, fewer than
  \<open>2 ^ 32 - max c 65534\<close> of them.
\<close>

theorem concurrent_ports_distinct:
  assumes "max (unat c) 65534 + n < 2 ^ 32"
  shows "distinct (returned_ports (run sched (calls c n)))"
proof -
  have "ports_inv c (calls c n)" by (rule ports_inv_calls)
  moreover from assms have "max (unat c) 65534 + length (goroutines (calls c n)) < 2 ^ 32"
    by (simp add: calls_def)
  ultimately have "ports_inv c (run sched (calls c n))" by (rule ports_inv_run)
  then show ?thesis by (rule distinct_returned_ports)
qed

theorem concurrent_ports_distinct_witness:
  "max (unat defaultEtcdPort) 65534 + 3 < (2 :: nat) ^ 32 \<and>
   returned_ports (run [(0, True), (1, True), (2, True), (1, False), (0, True), (2, True), (1, True)]
     (calls defaultEtcdPort 3)) = [2380, 2383, 2382] \<and>
   distinct [2380, 2383, 2382 :: int]"
proof -
  have room: "max (unat defaultEtcdPort) 65534 + 3 < (2 :: nat) ^ 32"
    by (simp add: defaultEtcdPort_def)
  have "returned_ports (run [(0, True), (1, True), (2, True), (1, False), (0, True), (2, True), (1, True)]
     (calls defaultEtcdPort 3)) = [2380, 2383, 2382]"
    by (simp add: returned_ports_def run_def calls_def step_def advance_def defaultEtcdPort_def
        Let_def numeral_3_eq_3)
  with concurrent_ports_distinct [OF room] room show ?thesis by simp
qed








text \<open>Under the same bound the ports returned concurrently lie above the starting cursor and
  below 65535.\<close>

lemma concurrent_ports_range:
  assumes "max (unat c) 65534 + n < 2 ^ 32"
    and "p \<in> set (returned_ports (run sched (calls c n)))"
  shows "uint c < p \<and> p < 65535"
proof -
  let ?s = "run sched (calls c n)"
  have "ports_inv c (calls c n)" by (rule ports_inv_calls)
  moreover from assms(1) have "max (unat c) 65534 + length (goroutines (calls c n)) < 2 ^ 32"
    by (simp add: calls_def)
  ultimately have inv: "ports_inv c ?s" by (rule ports_inv_run)
  from assms(2) obtain i where i: "i < length (goroutines ?s)"
    and "returned_port (goroutines ?s ! i) = Some p"
    unfolding returned_ports_def set_map_filter by blast
  then have r: "goroutines ?s ! i = Returned p"
    by (cases "goroutines ?s ! i") auto
  with inv i obtain port :: uint32 where port: "port < 65535" "p = uint port"
    unfolding ports_inv_def by blast
  from r port have "held_port (goroutines ?s ! i) = Some port" by simp
  with inv i have "c < port"
    unfolding ports_inv_def by blast
  with port show ?thesis
    by (simp add: word_less_def)
qed

text \<open>The two models agree on a single call: whatever \<open>getFreePort\<close> does in a world, the
  one goroutine of \<open>calls (lastPort w) 1\<close> does under some schedule.\<close>

lemma run_Cons: "run (a # sched) s = run sched (step a s)"
  by (simp add: run_def)

lemma getFreePort_loop_as_run:
  "port = lastPort w \<Longrightarrow> getFreePort_loop en port w = (r, w') \<Longrightarrow>
   \<exists>sched. run sched \<lparr>cursor = lastPort w, goroutines = [Probing port]\<rparr> =
     \<lparr>cursor = lastPort w', goroutines = [finished r]\<rparr>"
proof (induction port w rule: getFreePort_loop_induct)
  case (step port w)
  let ?a = "Sprintf_addr (uint port)"
  let ?s = "\<lparr>cursor = lastPort w, goroutines = [Probing port]\<rparr>"
  show ?case
  proof (cases "port < 65535")
    case False
    with step.prems have "r = Panic ''no ports available for listening''" and "w' = w"
      by (simp_all add: getFreePort_loop_stop)
    with False have "run [(0, True)] ?s = \<lparr>cursor = lastPort w', goroutines = [finished r]\<rparr>"
      by (simp add: run_def step_def)
    then show ?thesis ..
  next
    case below: True
    have retry: ?thesis
      if loop: "getFreePort_loop en (lastPort w + 1) w1 = (r, w')" and w1: "lastPort w1 = lastPort w + 1"
      for w1
    proof -
      from step.IH [OF below w1 _ loop] w1 obtain sched where
        "run sched \<lparr>cursor = lastPort w + 1, goroutines = [Probing (lastPort w + 1)]\<rparr> =
           \<lparr>cursor = lastPort w', goroutines = [finished r]\<rparr>"
        by auto
      moreover from below have "step (0, False) ?s =
          \<lparr>cursor = lastPort w + 1, goroutines = [Probing (lastPort w + 1)]\<rparr>"
        by (simp add: step_def advance_def Let_def)
      ultimately have "run ((0, False) # sched) ?s =
          \<lparr>cursor = lastPort w', goroutines = [finished r]\<rparr>"
        by (simp add: run_Cons)
      then show ?thesis ..
    qed
    show ?thesis
    proof (cases "net_Listen en (trace w) ?a")
      case False
      let ?w1 = "(log (EvListen ?a False) w)\<lparr>lastPort := lastPort w + 1\<rparr>"
      from below False step.prems have "getFreePort_loop en (lastPort w + 1) ?w1 = (r, w')"
        by (simp add: getFreePort_loop_listen_fails)
      then show ?thesis by (rule retry) simp
    next
      case listening: True
      show ?thesis
      proof (cases "Listener_Close en (trace w @ [EvListen ?a True]) ?a")
        case False
        let ?w1 = "(log (EvListenerClose ?a False) (log (EvListen ?a True) w))\<lparr>lastPort := lastPort w + 1\<rparr>"
        from below listening False step.prems have "getFreePort_loop en (lastPort w + 1) ?w1 = (r, w')"
          by (simp add: getFreePort_loop_close_fails)
        then show ?thesis by (rule retry) simp
      next
        case True
        with below listening step.prems have "r = Return (uint port)" and "lastPort w' = lastPort w"
          by (auto simp: getFreePort_loop_found)
        with below have "run [(0, True)] ?s = \<lparr>cursor = lastPort w', goroutines = [finished r]\<rparr>"
          by (simp add: run_def step_def)
        then show ?thesis ..
      qed
    qed
  qed
qed

lemma getFreePort_as_run:
  assumes "getFreePort en w = (r, w')"
  shows "\<exists>sched. run sched (calls (lastPort w) 1) =
    \<lparr>cursor = lastPort w', goroutines = [finished r]\<rparr>"
proof -
  let ?w1 = "w\<lparr>lastPort := lastPort w + 1\<rparr>"
  from assms have "getFreePort_loop en (lastPort ?w1) ?w1 = (r, w')"
    by (simp add: getFreePort_entry)
  from getFreePort_loop_as_run [OF refl this] obtain sched where
    "run sched \<lparr>cursor = lastPort w + 1, goroutines = [Probing (lastPort w + 1)]\<rparr> =
       \<lparr>cursor = lastPort w', goroutines = [finished r]\<rparr>"
    by auto
  moreover have "step (0, True) (calls (lastPort w) 1) =
      \<lparr>cursor = lastPort w + 1, goroutines = [Probing (lastPort w + 1)]\<rparr>"
    by (simp add: step_def advance_def calls_def Let_def)
  ultimately have "run ((0, True) # sched) (calls (lastPort w) 1) =
      \<lparr>cursor = lastPort w', goroutines = [finished r]\<rparr>"
    by (simp add: run_Cons)
  then show ?thesis ..
qed

lemma unspent_inv_calls: "unspent_inv (calls c n)"
  by (simp add: unspent_inv_def calls_def)

lemma spent_update:
  assumes "\<exists>g\<in>set gs. spent g" and "i < length gs" and "spent (gs ! i) \<Longrightarrow> spent g'"
  shows "\<exists>g\<in>set (gs[i := g']). spent g"
proof -
  from assms(1) obtain k where k: "k < length gs" "spent (gs ! k)"
    by (auto simp: in_set_conv_nth)
  show ?thesis
  proof (cases "k = i")
    case True
    with k assms(3) have "spent g'" by simp
    with assms(2) show ?thesis by (auto simp: set_update_memI)
  next
    case False
    with k have "gs[i := g'] ! k = gs ! k" and "k < length (gs[i := g'])" by simp_all
    with k(2) show ?thesis by (metis nth_mem)
  qed
qed

lemma unspent_inv_update:
  assumes inv: "unspent_inv s" and i: "i < length (goroutines s)"
    and sp: "spent (goroutines s ! i) \<Longrightarrow> spent g"
    and held: "held_port g = held_port (goroutines s ! i) \<or> held_port g = None"
  shows "unspent_inv (s\<lparr>goroutines := (goroutines s)[i := g]\<rparr>)"
proof (cases "\<exists>g\<in>set (goroutines s). spent g")
  case True
  from spent_update [OF True i sp] show ?thesis
    by (simp add: unspent_inv_def)
next
  case False
  let ?gs = "goroutines s"
  let ?gs' = "?gs[i := g]"
  from inv False have 3: "\<And>k port. k < length ?gs \<Longrightarrow> held_port (?gs ! k) = Some port \<Longrightarrow>
          port \<le> cursor s \<and> cursor s < 65535"
    and 4: "\<And>k l. k < length ?gs \<Longrightarrow> l < length ?gs \<Longrightarrow> k \<noteq> l \<Longrightarrow>
          held_port (?gs ! k) \<noteq> None \<Longrightarrow> held_port (?gs ! k) \<noteq> held_port (?gs ! l)"
    unfolding unspent_inv_def by blast+
  have nth: "?gs' ! k = (if k = i then g else ?gs ! k)" if "k < length ?gs" for k
    using that by (simp add: nth_list_update)
  have sub: "held_port (?gs ! k) = Some port" if "k < length ?gs" "held_port (?gs' ! k) = Some port"
    for k port
    using that held nth [OF that(1)] by (cases "k = i") auto
  have distinct': "held_port (?gs' ! k) \<noteq> held_port (?gs' ! l)"
    if "k < length ?gs" "l < length ?gs" "k \<noteq> l" "held_port (?gs' ! k) \<noteq> None" for k l
  proof
    assume eq: "held_port (?gs' ! k) = held_port (?gs' ! l)"
    from that(4) obtain port where k: "held_port (?gs' ! k) = Some port" by auto
    with eq have l: "held_port (?gs' ! l) = Some port" by simp
    from sub [OF that(1) k] sub [OF that(2) l] 4 [OF that(1,2,3)] show False by simp
  qed
  have "\<forall>k<length ?gs'. \<forall>port. held_port (?gs' ! k) = Some port \<longrightarrow>
      port \<le> cursor s \<and> cursor s < 65535"
    using 3 sub by simp
  moreover have "\<forall>k<length ?gs'. \<forall>l<length ?gs'. k \<noteq> l \<longrightarrow>
      held_port (?gs' ! k) \<noteq> None \<longrightarrow> held_port (?gs' ! k) \<noteq> held_port (?gs' ! l)"
    using distinct' by simp
  ultimately show ?thesis
    by (simp add: unspent_inv_def)
qed

lemma unspent_inv_advance:
  assumes inv: "unspent_inv s" and i: "i < length (goroutines s)"
    and live: "\<not> spent (goroutines s ! i)"
  shows "unspent_inv (advance i s)"
proof (cases "\<exists>g\<in>set (goroutines s). spent g")
  case True
  from spent_update [OF True i, of "Probing (cursor s + 1)"] live show ?thesis
    by (simp add: unspent_inv_def advance_def Let_def)
next
  case none: False
  let ?gs = "goroutines s"
  let ?n = "cursor s + 1"
  let ?gs' = "?gs[i := Probing ?n]"
  show ?thesis
  proof (cases "?n < 65535")
    case False
    then have "spent (Probing ?n)" by simp
    with i have "\<exists>g\<in>set ?gs'. spent g"
      by (metis set_update_memI)
    then show ?thesis
      by (simp add: unspent_inv_def advance_def Let_def)
  next
    case below: True
    from inv none have 3: "\<And>k port. k < length ?gs \<Longrightarrow> held_port (?gs ! k) = Some port \<Longrightarrow>
          port \<le> cursor s \<and> cursor s < 65535"
      and 4: "\<And>k l. k < length ?gs \<Longrightarrow> l < length ?gs \<Longrightarrow> k \<noteq> l \<Longrightarrow>
          held_port (?gs ! k) \<noteq> None \<Longrightarrow> held_port (?gs ! k) \<noteq> held_port (?gs ! l)"
      unfolding unspent_inv_def by blast+
    have nth: "?gs' ! k = (if k = i then Probing ?n else ?gs ! k)" if "k < length ?gs" for k
      using that by (simp add: nth_list_update)
    have old: "port < ?n" if "k < length ?gs" "held_port (?gs ! k) = Some port" for k port
    proof -
      from 3 [OF that] have "port \<le> cursor s" and "cursor s < 65535" by simp_all
      moreover from this(2) have "unat ?n = Suc (unat (cursor s))" by (rule unat_succ_below)
      ultimately show ?thesis by (simp add: word_le_nat_alt word_less_nat_alt)
    qed
    have c: "port \<le> ?n \<and> ?n < 65535" if "k < length ?gs" "held_port (?gs' ! k) = Some port" for k port
    proof (cases "k = i")
      case True
      with that nth [OF that(1)] have "port = ?n" by simp
      with below show ?thesis by simp
    next
      case False
      with that nth [OF that(1)] have "held_port (?gs ! k) = Some port" by simp
      from old [OF that(1) this] below show ?thesis by simp
    qed
    have d: "held_port (?gs' ! k) \<noteq> held_port (?gs' ! l)"
      if "k < length ?gs" "l < length ?gs" "k \<noteq> l" "held_port (?gs' ! k) \<noteq> None" for k l
    proof (cases "k = i")
      case True
      with that(3) have "l \<noteq> i" by simp
      with True nth [OF that(1)] nth [OF that(2)] old [OF that(2)] show ?thesis
        by (cases "held_port (?gs ! l)") auto
    next
      case ki: False
      show ?thesis
      proof (cases "l = i")
        case True
        with ki nth [OF that(1)] nth [OF that(2)] old [OF that(1)] that(4) show ?thesis
          by (cases "held_port (?gs ! k)") auto
      next
        case False
        with ki nth [OF that(1)] nth [OF that(2)] 4 [OF that(1,2,3)] that(4) show ?thesis
          by simp
      qed
    qed
    show ?thesis
      unfolding unspent_inv_def advance_def Let_def
      using c d by simp
  qed
qed

lemma unspent_inv_step: "unspent_inv s \<Longrightarrow> unspent_inv (step a s)"
proof (cases a)
  case (Pair i ok)
  assume inv: "unspent_inv s"
  show ?thesis
  proof (cases "i < length (goroutines s)")
    case False
    with Pair inv show ?thesis by (simp add: step_def)
  next
    case i: True
    show ?thesis
    proof (cases "goroutines s ! i")
      case Calling
      with unspent_inv_advance [OF inv i] Pair i show ?thesis
        by (simp add: step_def)
    next
      case (Probing port)
      show ?thesis
      proof (cases "port < 65535")
        case below: True
        show ?thesis
        proof (cases ok)
          case True
          have "unspent_inv (s\<lparr>goroutines := (goroutines s)[i := Returned (uint port)]\<rparr>)"
            using Probing below by (intro unspent_inv_update [OF inv i]) auto
          with Pair i Probing below True show ?thesis
            by (simp add: step_def)
        next
          case False
          with unspent_inv_advance [OF inv i] Pair i Probing below show ?thesis
            by (simp add: step_def)
        qed
      next
        case False
        have "unspent_inv (s\<lparr>goroutines :=
            (goroutines s)[i := Panicked ''no ports available for listening'']\<rparr>)"
          using Probing False by (intro unspent_inv_update [OF inv i]) auto
        with Pair i Probing False show ?thesis
          by (simp add: step_def)
      qed
    next
      case (Returned p)
      with Pair i inv show ?thesis by (simp add: step_def)
    next
      case (Panicked msg)
      with Pair i inv show ?thesis by (simp add: step_def)
    qed
  qed
qed

lemma unspent_inv_run: "unspent_inv s \<Longrightarrow> unspent_inv (run sched s)"
proof (induction sched arbitrary: s)
  case Nil
  then show ?case by (simp add: run_def)
next
  case (Cons a sched)
  from Cons.prems have "unspent_inv (step a s)" by (rule unspent_inv_step)
  then have "unspent_inv (run sched (step a s))" by (rule Cons.IH)
  then show ?case by (simp add: run_def)
qed

text \<open>
  Whatever the number of goroutines, the cursor they start from and the schedule: as
  long as no goroutine has run out of ports, the ports returned are pairwise distinct;
  in particular they are when every call has returned.
\<close>

lemma unspent_ports_distinct:
  assumes "\<forall>g\<in>set (goroutines (run sched (calls c n))). \<not> spent g"
  shows "distinct (returned_ports (run sched (calls c n)))"
proof -
  let ?s = "run sched (calls c n)"
  have "unspent_inv ?s" by (intro unspent_inv_run unspent_inv_calls)
  with assms have held: "\<forall>i<length (goroutines ?s). \<forall>j<length (goroutines ?s). i \<noteq> j \<longrightarrow>
        held_port (goroutines ?s ! i) \<noteq> None \<longrightarrow>
        held_port (goroutines ?s ! i) \<noteq> held_port (goroutines ?s ! j)"
    unfolding unspent_inv_def by blast
  show ?thesis
    unfolding returned_ports_def distinct_map_filter_iff
  proof (intro allI impI)
    fix i j
    assume a: "i < length (goroutines ?s)" "j < length (goroutines ?s)" "i < j"
      "returned_port (goroutines ?s ! i) \<noteq> None"
    then obtain p where p: "goroutines ?s ! i = Returned p"
      by (cases "goroutines ?s ! i") auto
    show "returned_port (goroutines ?s ! i) \<noteq> returned_port (goroutines ?s ! j)"
    proof
      assume "returned_port (goroutines ?s ! i) = returned_port (goroutines ?s ! j)"
      with p have "goroutines ?s ! j = Returned p"
        by (cases "goroutines ?s ! j") auto
      with p have eq: "held_port (goroutines ?s ! i) = held_port (goroutines ?s ! j)"
        and some: "held_port (goroutines ?s ! i) \<noteq> None" by simp_all
      from a(3) have "i \<noteq> j" by simp
      from held [rule_format, OF a(1) a(2) this some] eq show False by simp
    qed
  qed
qed

lemma all_returned_distinct:
  assumes "\<forall>g\<in>set (goroutines (run sched (calls c n))). \<exists>p. g = Returned p"
  shows "distinct (returned_ports (run sched (calls c n)))"
proof (rule unspent_ports_distinct)
  from assms show "\<forall>g\<in>set (goroutines (run sched (calls c n))). \<not> spent g"
    by auto
qed

section \<open>The cursor wraps around\<close>









end
